theory Spec2Isabelle
  imports Complex_Main "HOL-Library.Char_ord" "HOL-Library.Log_Nat"
begin

section \<open>Strings and numbers of the host language\<close>

text \<open>
  A JavaScript string is modelled as a \<^typ>\<open>string\<close>: a list of 8-bit characters, each
  standing for the UTF-16 code unit of the same number (the Latin-1 range).  The numbers of
  the relevance score, which are sums of counts and of halves of counts, are modelled as
  reals.  The numbers of the validation are quotients, which the language rounds: they have
  the type \<open>number\<close> below, with the rounding of every operation written out.
\<close>

fun join :: "string \<Rightarrow> string list \<Rightarrow> string" where
  "join sep [] = []"
| "join sep [x] = x"
| "join sep (x # y # ys) = x @ sep @ join sep (y # ys)"

section \<open>JavaScript string operations\<close>

text \<open>
  The class \<open>\s\<close> of regular expressions, which is also the set of characters removed by
  \<open>trim()\<close>: tab, line feed, vertical tab, form feed, carriage return, space and the
  no-break space.
\<close>

definition isSpace :: "char \<Rightarrow> bool" where
  "isSpace c = (c \<in> set [CHR 0x09, CHR 0x0A, CHR 0x0B, CHR 0x0C, CHR 0x0D, CHR 0x20, CHR 0xA0])"

definition isUpper :: "char \<Rightarrow> bool" where
  "isUpper c = (CHR ''A'' \<le> c \<and> c \<le> CHR ''Z'')"

definition isLower :: "char \<Rightarrow> bool" where
  "isLower c = (CHR ''a'' \<le> c \<and> c \<le> CHR ''z'')"

definition isLetter :: "char \<Rightarrow> bool" where
  "isLetter c = (isLower c \<or> isUpper c)"

definition isDigit :: "char \<Rightarrow> bool" where
  "isDigit c = (CHR ''0'' \<le> c \<and> c \<le> CHR ''9'')"

text \<open>The class \<open>\w\<close>: letters, digits and the underscore.\<close>

definition isWord :: "char \<Rightarrow> bool" where
  "isWord c = (isLetter c \<or> isDigit c \<or> c = CHR ''_'')"

text \<open>
  \<open>toLowerCase\<close> on the code units below 256: the letters \<open>A\<close> to \<open>Z\<close> and the accented
  capitals \<open>0xC0\<close> to \<open>0xDE\<close> (without the multiplication sign \<open>0xD7\<close>) move up by 32.
\<close>

definition toLowerChar :: "char \<Rightarrow> char" where
  "toLowerChar c =
     (if isUpper c \<or> (CHR 0xC0 \<le> c \<and> c \<le> CHR 0xD6) \<or> (CHR 0xD8 \<le> c \<and> c \<le> CHR 0xDE)
      then char_of (of_char c + (32::nat)) else c)"

definition toLowerCase :: "string \<Rightarrow> string" where
  "toLowerCase s = map toLowerChar s"

fun starts_with :: "string \<Rightarrow> string \<Rightarrow> bool" where
  "starts_with [] s = True"
| "starts_with (p # ps) [] = False"
| "starts_with (p # ps) (c # cs) = (p = c \<and> starts_with ps cs)"

text \<open>\<open>s.includes(p)\<close>: \<open>p\<close> occurs in \<open>s\<close> as a substring.\<close>

fun str_includes :: "string \<Rightarrow> string \<Rightarrow> bool" where
  "str_includes [] p = (p = [])"
| "str_includes (c # cs) p = (starts_with p (c # cs) \<or> str_includes cs p)"

text \<open>\<open>s.indexOf(p)\<close>, with \<open>None\<close> for \<open>-1\<close>.\<close>

fun indexOf :: "string \<Rightarrow> string \<Rightarrow> nat option" where
  "indexOf [] p = (if p = [] then Some 0 else None)"
| "indexOf (c # cs) p =
     (if starts_with p (c # cs) then Some 0 else map_option Suc (indexOf cs p))"

definition trim :: "string \<Rightarrow> string" where
  "trim s = rev (dropWhile isSpace (rev (dropWhile isSpace s)))"

text \<open>
  \<open>s.split(re)\<close> for a regular expression \<open>re\<close> that matches the non-empty runs of the
  characters of a class: the pieces between the runs, with an empty first or last piece when
  the string begins or ends with a run, and the one piece \<open>""\<close> for the empty string.
\<close>

function split_runs :: "(char \<Rightarrow> bool) \<Rightarrow> string \<Rightarrow> string list" where
  "split_runs P s =
     (let w = takeWhile (\<lambda>c. \<not> P c) s; r = dropWhile (\<lambda>c. \<not> P c) s
      in if r = [] then [w] else w # split_runs P (dropWhile P r))"
  by pat_completeness auto
termination
proof (relation "measure (\<lambda>(P, s). length s)")
  fix P :: "char \<Rightarrow> bool" and s :: string and w r
  assume r: "r = dropWhile (\<lambda>c. \<not> P c) s" and ne: "r \<noteq> []"
  then have "P (hd r)" using hd_dropWhile by metis
  then have "length (dropWhile P r) < length r"
    using ne by (cases r) (auto intro: le_imp_less_Suc length_dropWhile_le)
  also have "length r \<le> length s" unfolding r by (rule length_dropWhile_le)
  finally show "((P, dropWhile P r), (P, s)) \<in> measure (\<lambda>(P, s). length s)" by simp
qed simp

text \<open>\<open>s.split(/\s+/)\<close>\<close>

definition split_ws :: "string \<Rightarrow> string list" where
  "split_ws s = split_runs isSpace s"

text \<open>\<open>s.replace(/\s+/g, ' ')\<close>\<close>

function collapse_ws :: "string \<Rightarrow> string" where
  "collapse_ws [] = []"
| "collapse_ws (c # cs) =
     (if isSpace c then CHR '' '' # collapse_ws (dropWhile isSpace cs) else c # collapse_ws cs)"
  by pat_completeness auto
termination
  by (relation "measure length") (auto intro: le_imp_less_Suc length_dropWhile_le)

text \<open>Decimal digits of a number, as a template literal prints it.\<close>

fun digits :: "nat \<Rightarrow> nat \<Rightarrow> string" where
  "digits 0 n = []"
| "digits (Suc fuel) n =
     (if n < 10 then [char_of (48 + n)] else digits fuel (n div 10) @ [char_of (48 + n mod 10)])"

definition show_nat :: "nat \<Rightarrow> string" where
  "show_nat n = digits (Suc n) n"

section \<open>JavaScript numbers\<close>

text \<open>
  A number is a binary64 value: a finite one, written as the real it stands for, an infinity
  or \<open>NaN\<close>.  The two zeros are not told apart.
\<close>

datatype number = Num real | PosInfinity | NegInfinity | NaN

text \<open>The exponent of a positive real \<open>a\<close>: the \<open>e\<close> with \<open>2^e \<le> a < 2^(e+1)\<close>.\<close>

definition floor_log2 :: "real \<Rightarrow> int" where
  "floor_log2 a = (if 1 \<le> a then bitlen \<lfloor>a\<rfloor> - 1 else - bitlen (\<lceil>1 / a\<rceil> - 1))"

text \<open>The nearest integer, the even one of the two when they are equally near.\<close>

definition round_half_even :: "real \<Rightarrow> int" where
  "round_half_even m =
     (let f = \<lfloor>m\<rfloor>; d = m - of_int f
      in if d < 1 / 2 then f else if 1 / 2 < d then f + 1 else if even f then f else f + 1)"

text \<open>
  The multiple nearest to a positive real \<open>a\<close> of the unit in the last place of \<open>a\<close>: a
  significand of 53 bits, and the exponent of \<open>a\<close> or, for a subnormal \<open>a\<close>, the least
  exponent \<open>-1022\<close>.
\<close>

definition nearest_double :: "real \<Rightarrow> real" where
  "nearest_double a =
     (let u = 2 powi (max (floor_log2 a) (- 1022) - 52)
      in of_int (round_half_even (a / u)) * u)"

text \<open>
  The binary64 value of a real: round to nearest, ties to even, and an infinity when the
  rounded magnitude reaches \<open>2^1024\<close>.
\<close>

definition binary64 :: "real \<Rightarrow> number" where
  "binary64 x =
     (if x = 0 then Num 0
      else let r = nearest_double \<bar>x\<bar>
           in if 2 powi 1024 \<le> r then (if 0 < x then PosInfinity else NegInfinity)
              else Num (if 0 < x then r else - r))"

text \<open>The finite numbers that are binary64 values.\<close>

fun representable :: "number \<Rightarrow> bool" where
  "representable (Num x) = (binary64 x = Num x)"
| "representable PosInfinity = True"
| "representable NegInfinity = True"
| "representable NaN = True"

text \<open>The numbers from 0 on, the positive infinity among them.\<close>

fun nonnegative :: "number \<Rightarrow> bool" where
  "nonnegative (Num x) = (0 \<le> x)"
| "nonnegative PosInfinity = True"
| "nonnegative NegInfinity = False"
| "nonnegative NaN = False"

text \<open>\<open>x + y\<close>\<close>

fun js_plus :: "number \<Rightarrow> number \<Rightarrow> number" where
  "js_plus (Num x) (Num y) = binary64 (x + y)"
| "js_plus NaN y = NaN"
| "js_plus x NaN = NaN"
| "js_plus PosInfinity NegInfinity = NaN"
| "js_plus NegInfinity PosInfinity = NaN"
| "js_plus PosInfinity y = PosInfinity"
| "js_plus x PosInfinity = PosInfinity"
| "js_plus NegInfinity y = NegInfinity"
| "js_plus x NegInfinity = NegInfinity"

text \<open>\<open>x / y\<close>; a zero divisor is the positive zero.\<close>

fun js_div :: "number \<Rightarrow> number \<Rightarrow> number" where
  "js_div (Num a) (Num b) =
     (if b \<noteq> 0 then binary64 (a / b)
      else if a = 0 then NaN
      else if 0 < a then PosInfinity else NegInfinity)"
| "js_div NaN y = NaN"
| "js_div x NaN = NaN"
| "js_div (Num a) y = Num 0"
| "js_div PosInfinity (Num b) = (if 0 \<le> b then PosInfinity else NegInfinity)"
| "js_div NegInfinity (Num b) = (if 0 \<le> b then NegInfinity else PosInfinity)"
| "js_div x y = NaN"

text \<open>\<open>x * y\<close>\<close>

fun js_times :: "number \<Rightarrow> number \<Rightarrow> number" where
  "js_times (Num x) (Num y) = binary64 (x * y)"
| "js_times NaN y = NaN"
| "js_times x NaN = NaN"
| "js_times (Num x) y =
     (if x = 0 then NaN else if (0 < x) = (y = PosInfinity) then PosInfinity else NegInfinity)"
| "js_times x (Num y) =
     (if y = 0 then NaN else if (0 < y) = (x = PosInfinity) then PosInfinity else NegInfinity)"
| "js_times x y = (if x = y then PosInfinity else NegInfinity)"

text \<open>\<open>Math.min(x, y)\<close>\<close>

fun Math_min :: "number \<Rightarrow> number \<Rightarrow> number" where
  "Math_min NaN y = NaN"
| "Math_min x NaN = NaN"
| "Math_min NegInfinity y = NegInfinity"
| "Math_min x NegInfinity = NegInfinity"
| "Math_min PosInfinity y = y"
| "Math_min x PosInfinity = x"
| "Math_min (Num x) (Num y) = Num (min x y)"

text \<open>\<open>x > y\<close>; every comparison with \<open>NaN\<close> is false.\<close>

fun js_gt :: "number \<Rightarrow> number \<Rightarrow> bool" where
  "js_gt NaN y = False"
| "js_gt x NaN = False"
| "js_gt (Num x) (Num y) = (y < x)"
| "js_gt x PosInfinity = False"
| "js_gt NegInfinity y = False"
| "js_gt PosInfinity y = True"
| "js_gt x NegInfinity = True"

text \<open>
  The length of an array as a number: an integer below \<open>2^32\<close>, which is a binary64 value.
\<close>

definition number_of_length :: "nat \<Rightarrow> number" where
  "number_of_length n = Num (real n)"

text \<open>A number between 0 and 100.\<close>

fun is_percentage :: "number \<Rightarrow> bool" where
  "is_percentage (Num x) = (0 \<le> x \<and> x \<le> 100)"
| "is_percentage PosInfinity = False"
| "is_percentage NegInfinity = False"
| "is_percentage NaN = False"

section \<open>The research data store (researchDataStore.ts)\<close>

record SourcePaper =
  paper_id :: string
  paper_title :: string
  authors :: "string list"
  url :: string
  extractedText :: string
  relevantSections :: "string list"
  citationStyle :: string

datatype hypothesis_status = Draft | Testing | Validated | Rejected

record ExtractedEvidence =
  ev_paperId :: string
  ev_evidenceText :: string
  ev_pageNumber :: "nat option"
  ev_section :: string

record HypothesisWithSources =
  hyp_id :: string
  hyp_title :: string
  hyp_description :: string
  status :: hypothesis_status
  hyp_confidence :: real
  sourcePapers :: "SourcePaper list"
  extractedEvidence :: "ExtractedEvidence list"
  tags :: "string list"
  createdAt :: string
  updatedAt :: string
  knowledgeGraphNodeId :: "string option"

datatype node_type = Paper | Hypothesis | Concept | EvidenceNode | Author

datatype source_type = Pdf_extracted | User_generated | Paper_metadata

record NodeMetadata =
  md_sourcePapers :: "string list option"
  md_confidence :: "real option"
  md_description :: "string option"

record KnowledgeGraphNode =
  node_id :: string
  label :: string
  node_type :: node_type
  sourceType :: source_type
  importance :: real
  metadata :: NodeMetadata
  node_connections :: "string list"

datatype connection_type = Supports | Contradicts | Relates_to | Derived_from | Cites

record ConnectionEvidence =
  ce_paperId :: string
  ce_evidenceText :: string
  ce_confidence :: real

record GraphConnection =
  sourceId :: string
  targetId :: string
  conn_type :: connection_type
  weight :: real
  conn_evidence :: "ConnectionEvidence list"

text \<open>The four private \<open>Map\<close>s of the class \<open>ResearchDataStore\<close>.\<close>

record store =
  hypotheses :: "string \<rightharpoonup> HypothesisWithSources"
  papers :: "string \<rightharpoonup> SourcePaper"
  knowledgeGraph :: "string \<rightharpoonup> KnowledgeGraphNode"
  connections :: "string \<rightharpoonup> GraphConnection"

definition empty_store :: store where
  "empty_store = \<lparr>hypotheses = Map.empty, papers = Map.empty,
                   knowledgeGraph = Map.empty, connections = Map.empty\<rparr>"

text \<open>A thrown \<open>Error\<close> with its message.\<close>

datatype error = Error string

definition paperNodeId :: "string \<Rightarrow> string" where
  "paperNodeId pid = ''paper_'' @ pid"

definition hypothesisNodeId :: "string \<Rightarrow> string" where
  "hypothesisNodeId hid = ''hypothesis_'' @ hid"

definition addPaper :: "store \<Rightarrow> SourcePaper \<Rightarrow> store" where
  "addPaper s paper =
     (let paperNode = \<lparr>node_id = paperNodeId (paper_id paper),
                        label = paper_title paper,
                        node_type = Paper,
                        sourceType = Paper_metadata,
                        importance = 0.8,
                        metadata = \<lparr>md_sourcePapers = Some [paper_id paper],
                                     md_confidence = None,
                                     md_description = Some (''Research paper: '' @ paper_title paper)\<rparr>,
                        node_connections = []\<rparr>
      in s\<lparr>papers := (papers s)(paper_id paper \<mapsto> paper),
            knowledgeGraph := (knowledgeGraph s)(node_id paperNode \<mapsto> paperNode)\<rparr>)"

text \<open>
  \<open>node.connections.push(x)\<close> on the node object stored under key \<open>k\<close>: the map holds a
  reference to the object, so the push is an update of the map entry.  Nothing happens when
  no node is stored under \<open>k\<close>.
\<close>

definition push_connection :: "string \<Rightarrow> string \<Rightarrow> store \<Rightarrow> store" where
  "push_connection k x s =
     (case knowledgeGraph s k of
        None \<Rightarrow> s
      | Some node \<Rightarrow>
          s\<lparr>knowledgeGraph :=
               (knowledgeGraph s)(k \<mapsto> node\<lparr>node_connections := node_connections node @ [x]\<rparr>)\<rparr>)"

text \<open>The body of the \<open>forEach\<close> over the source papers in \<open>addHypothesis\<close>.\<close>

definition connect_paper :: "HypothesisWithSources \<Rightarrow> string \<Rightarrow> store \<Rightarrow> SourcePaper \<Rightarrow> store" where
  "connect_paper hypothesis nodeId s paper =
     (let pNodeId = paperNodeId (paper_id paper);
          connectionId = nodeId @ ''_to_'' @ pNodeId;
          connection = \<lparr>sourceId = nodeId,
                         targetId = pNodeId,
                         conn_type = Derived_from,
                         weight = 0.8,
                         conn_evidence =
                           map (\<lambda>ev. \<lparr>ce_paperId = paper_id paper,
                                       ce_evidenceText = ev_evidenceText ev,
                                       ce_confidence = hyp_confidence hypothesis / 100\<rparr>)
                               (filter (\<lambda>ev. ev_paperId ev = paper_id paper)
                                       (extractedEvidence hypothesis))\<rparr>;
          s1 = s\<lparr>connections := (connections s)(connectionId \<mapsto> connection)\<rparr>;
          s2 = push_connection nodeId pNodeId s1
      in push_connection pNodeId nodeId s2)"

text \<open>
  \<open>addHypothesis\<close> returns the store after the call together with either the thrown error
  or the returned hypothesis.  The check for missing papers comes first, as in the source.
\<close>

definition addHypothesis :: "store \<Rightarrow> HypothesisWithSources \<Rightarrow> store \<times> (error + HypothesisWithSources)" where
  "addHypothesis s hypothesis =
     (let missingPapers = filter (\<lambda>paper. papers s (paper_id paper) = None) (sourcePapers hypothesis)
      in if length missingPapers > 0
         then (s, Inl (Error (''Missing source papers: '' @ join '', '' (map paper_id missingPapers))))
         else
           let nodeId = hypothesisNodeId (hyp_id hypothesis);
               hypothesisNode = \<lparr>node_id = nodeId,
                                 label = hyp_title hypothesis,
                                 node_type = Hypothesis,
                                 sourceType = Pdf_extracted,
                                 importance = hyp_confidence hypothesis / 100,
                                 metadata = \<lparr>md_sourcePapers = Some (map paper_id (sourcePapers hypothesis)),
                                              md_confidence = Some (hyp_confidence hypothesis),
                                              md_description = Some (hyp_description hypothesis)\<rparr>,
                                 node_connections = []\<rparr>;
               fullHypothesis = hypothesis\<lparr>knowledgeGraphNodeId := Some nodeId\<rparr>;
               s1 = s\<lparr>hypotheses := (hypotheses s)(hyp_id hypothesis \<mapsto> fullHypothesis),
                       knowledgeGraph := (knowledgeGraph s)(nodeId \<mapsto> hypothesisNode)\<rparr>
           in (foldl (connect_paper hypothesis nodeId) s1 (sourcePapers hypothesis), Inr fullHypothesis))"

text \<open>
  \<open>updateHypothesisStatus\<close>; \<open>now\<close> is the value of \<open>new Date().toISOString()\<close>.
  An empty node id is falsy in the test \<open>if (hypothesis.knowledgeGraphNodeId)\<close>.
\<close>

definition updateHypothesisStatus :: "store \<Rightarrow> string \<Rightarrow> hypothesis_status \<Rightarrow> string \<Rightarrow> store" where
  "updateHypothesisStatus s hypothesisId newStatus now =
     (case hypotheses s hypothesisId of
        None \<Rightarrow> s
      | Some h \<Rightarrow>
          let hypothesis = h\<lparr>status := newStatus, updatedAt := now\<rparr>;
              kg = (case knowledgeGraphNodeId hypothesis of
                      None \<Rightarrow> knowledgeGraph s
                    | Some nid \<Rightarrow>
                        if nid = [] then knowledgeGraph s
                        else (case knowledgeGraph s nid of
                                None \<Rightarrow> knowledgeGraph s
                              | Some node \<Rightarrow>
                                  (knowledgeGraph s)(nid \<mapsto>
                                     node\<lparr>metadata := (metadata node)\<lparr>md_confidence := Some (hyp_confidence hypothesis)\<rparr>\<rparr>)))
          in s\<lparr>hypotheses := (hypotheses s)(hypothesisId \<mapsto> hypothesis), knowledgeGraph := kg\<rparr>)"

datatype store_op =
    AddPaper SourcePaper
  | AddHypothesis HypothesisWithSources
  | UpdateHypothesisStatus string hypothesis_status string

fun apply_op :: "store \<Rightarrow> store_op \<Rightarrow> store" where
  "apply_op s (AddPaper paper) = addPaper s paper"
| "apply_op s (AddHypothesis h) = fst (addHypothesis s h)"
| "apply_op s (UpdateHypothesisStatus hid st now) = updateHypothesisStatus s hid st now"

definition run_ops :: "store \<Rightarrow> store_op list \<Rightarrow> store" where
  "run_ops s ops = foldl apply_op s ops"

text \<open>
  The operations that store a fresh node object under a node id: \<open>addPaper\<close> for the node of
  its paper, and a successful \<open>addHypothesis\<close> for the node of its hypothesis.
\<close>

fun recreates :: "store_op \<Rightarrow> string \<Rightarrow> bool" where
  "recreates (AddPaper paper) nid = (nid = paperNodeId (paper_id paper))"
| "recreates (AddHypothesis h) nid = (nid = hypothesisNodeId (hyp_id h))"
| "recreates (UpdateHypothesisStatus hid st now) nid = False"

text \<open>
  Two relations between a store and a later store, for one node id: the node still exists
  (\<open>persists\<close>), and it still exists with every earlier connection (\<open>grows\<close>).
\<close>

definition grows :: "store \<Rightarrow> store \<Rightarrow> string \<Rightarrow> bool" where
  "grows s s' nid =
     (case knowledgeGraph s nid of
        None \<Rightarrow> True
      | Some n \<Rightarrow> (case knowledgeGraph s' nid of
                     None \<Rightarrow> False
                   | Some n' \<Rightarrow> set (node_connections n) \<subseteq> set (node_connections n')))"

definition persists :: "store \<Rightarrow> store \<Rightarrow> string \<Rightarrow> bool" where
  "persists s s' nid = (knowledgeGraph s nid \<noteq> None \<longrightarrow> knowledgeGraph s' nid \<noteq> None)"

section \<open>Validation of a hypothesis against its sources (researchDataStore.ts)\<close>

record SupportingEvidence =
  se_paperId :: string
  se_evidenceText :: string
  se_relevance :: number

record ValidationResult =
  isValid :: bool
  confidence :: number
  supportingEvidence :: "SupportingEvidence list"
  warnings :: "string list"

text \<open>
  \<open>foundConcepts\<close>: the hypothesis words longer than 3 characters that occur in the
  lower-cased text of the paper.
\<close>

definition foundConcepts :: "string list \<Rightarrow> SourcePaper \<Rightarrow> string list" where
  "foundConcepts hypothesisWords paper =
     filter (\<lambda>word. length word > 3 \<and> str_includes (toLowerCase (extractedText paper)) word)
            hypothesisWords"

text \<open>
  The body of the \<open>forEach\<close> over the source papers; the state is
  \<open>(totalRelevance, supportingEvidence, warnings)\<close>.
\<close>

definition validate_paper ::
  "string list \<Rightarrow> number \<times> SupportingEvidence list \<times> string list \<Rightarrow> SourcePaper
     \<Rightarrow> number \<times> SupportingEvidence list \<times> string list" where
  "validate_paper hypothesisWords st paper =
     (case st of (totalRelevance, evidence, warns) \<Rightarrow>
        (case foundConcepts hypothesisWords paper of
           [] \<Rightarrow> (totalRelevance, evidence,
                   warns @ [''No supporting evidence found in paper: '' @ paper_title paper])
         | first # others \<Rightarrow>
             let relevance = js_div (number_of_length (length (first # others)))
                                    (number_of_length (length hypothesisWords))
             in (js_plus totalRelevance relevance,
                 evidence @
                   map (\<lambda>section. \<lparr>se_paperId = paper_id paper, se_evidenceText = section,
                                    se_relevance = relevance\<rparr>)
                       (filter (\<lambda>section. str_includes (toLowerCase section) first)
                               (relevantSections paper)),
                 warns)))"

text \<open>The literal \<open>0.3\<close> is the binary64 value nearest to three tenths.\<close>

definition validateHypothesisAgainstSources :: "string \<Rightarrow> SourcePaper list \<Rightarrow> ValidationResult" where
  "validateHypothesisAgainstSources hypothesisText srcPapers =
     (let hypothesisWords = split_ws (toLowerCase hypothesisText)
      in case foldl (validate_paper hypothesisWords) (Num 0, [], []) srcPapers of
           (totalRelevance, evidence, warns) \<Rightarrow>
             let avgRelevance = js_div totalRelevance (number_of_length (length srcPapers));
                 conf = Math_min (js_times avgRelevance (Num 100)) (Num 95)
             in \<lparr>isValid = js_gt avgRelevance (binary64 (3 / 10)),
                 confidence = conf,
                 supportingEvidence = evidence,
                 warnings = warns\<rparr>)"

text \<open>
  The quantities the description of the validation speaks of: the number of matched words of
  a paper, its relevance, and the average relevance over the papers, each computed with the
  operations of the language on its numbers.
\<close>

definition matchedWordCount :: "string \<Rightarrow> SourcePaper \<Rightarrow> nat" where
  "matchedWordCount hypothesisText paper =
     length (filter (\<lambda>word. length word > 3 \<and> str_includes (toLowerCase (extractedText paper)) word)
                    (split_ws (toLowerCase hypothesisText)))"

definition paperRelevance :: "string \<Rightarrow> SourcePaper \<Rightarrow> number" where
  "paperRelevance hypothesisText paper =
     js_div (number_of_length (matchedWordCount hypothesisText paper))
            (number_of_length (length (split_ws (toLowerCase hypothesisText))))"

definition avgRelevance :: "string \<Rightarrow> SourcePaper list \<Rightarrow> number" where
  "avgRelevance hypothesisText srcPapers =
     js_div (foldl js_plus (Num 0) (map (paperRelevance hypothesisText) srcPapers))
            (number_of_length (length srcPapers))"

section \<open>Relevance of a text for a query (ragService.ts)\<close>

definition queryWordsOf :: "string \<Rightarrow> string list" where
  "queryWordsOf query = filter (\<lambda>w. length w > 2) (split_ws (toLowerCase query))"

definition exactWordMatches :: "string list \<Rightarrow> string \<Rightarrow> nat" where
  "exactWordMatches textWords queryWord = length (filter (\<lambda>word. word = queryWord) textWords)"

definition partialWordMatches :: "string list \<Rightarrow> string \<Rightarrow> nat" where
  "partialWordMatches textWords queryWord =
     length (filter (\<lambda>word. str_includes word queryWord \<and> word \<noteq> queryWord) textWords)"

text \<open>The body of \<open>queryWords.forEach\<close>: what one query word adds to \<open>score\<close>.\<close>

definition score_word :: "string \<Rightarrow> string \<Rightarrow> string list \<Rightarrow> real \<Rightarrow> string \<Rightarrow> real" where
  "score_word query text textWords score queryWord =
     (let score1 = score + real (exactWordMatches textWords queryWord) * 2;
          score2 = score1 + real (partialWordMatches textWords queryWord) * 0.5
      in if str_includes (toLowerCase text) (toLowerCase query) then score2 + 3 else score2)"

text \<open>
  The contributions of the words alone: 2 for each exact match and 0.5 for each text word
  that contains the query word without being equal to it.
\<close>

definition word_contributions :: "string \<Rightarrow> string \<Rightarrow> real" where
  "word_contributions query text =
     sum_list (map (\<lambda>w. real (exactWordMatches (split_ws (toLowerCase text)) w) * 2 +
                         real (partialWordMatches (split_ws (toLowerCase text)) w) * 0.5)
                   (queryWordsOf query))"

text \<open>The value of \<open>score\<close> after the loop.\<close>

definition raw_score :: "string \<Rightarrow> string \<Rightarrow> real" where
  "raw_score query text =
     foldl (score_word query text (split_ws (toLowerCase text))) 0 (queryWordsOf query)"

definition calculateAdvancedRelevance :: "string \<Rightarrow> string \<Rightarrow> real" where
  "calculateAdvancedRelevance query text =
     (let queryWords = queryWordsOf query;
          textWords = split_ws (toLowerCase text);
          textLength = length textWords
      in if length queryWords = 0 \<or> textLength = 0 then 0
         else
           let score = raw_score query text;
               normalizedScore = score / (real textLength * 0.01 + real (length queryWords));
               lengthPenalty = min 1 (1000 / real textLength)
           in min 1 (normalizedScore * lengthPenalty))"

section \<open>Regular expression matching\<close>

text \<open>
  A regular expression is modelled by its matcher at the start of a string: the length of
  the match there, or \<open>None\<close>.  \<open>s.match(re)\<close> with the flag \<open>g\<close> collects the matches from
  left to right; after a match the search goes on behind it, after a failure one character
  further.  An empty list is the result \<open>null\<close>.
\<close>

function match_all :: "(string \<Rightarrow> nat option) \<Rightarrow> string \<Rightarrow> string list" where
  "match_all m [] = (case m [] of None \<Rightarrow> [] | Some n \<Rightarrow> [[]])"
| "match_all m (c # cs) =
     (case m (c # cs) of
        None \<Rightarrow> match_all m cs
      | Some n \<Rightarrow> take n (c # cs) # match_all m (drop (max 1 n) (c # cs)))"
  by pat_completeness auto
termination
  by (relation "measure (\<lambda>(m, s). length s)") auto

text \<open>\<open>s.match(re)\<close> without the flag \<open>g\<close>: the leftmost match.\<close>

fun match_first :: "(string \<Rightarrow> nat option) \<Rightarrow> string \<Rightarrow> string option" where
  "match_first m [] = (case m [] of None \<Rightarrow> None | Some n \<Rightarrow> Some [])"
| "match_first m (c # cs) =
     (case m (c # cs) of None \<Rightarrow> match_first m cs | Some n \<Rightarrow> Some (take n (c # cs)))"

text \<open>
  \<open>opn[\s\S]*?cls\<close> for two literal strings: \<open>opn\<close>, then as few characters as possible, then
  \<open>cls\<close>.
\<close>

definition re_block :: "string \<Rightarrow> string \<Rightarrow> string \<Rightarrow> nat option" where
  "re_block opn cls s =
     (if starts_with opn s
      then map_option (\<lambda>k. length opn + k + length cls) (indexOf (drop (length opn) s) cls)
      else None)"

text \<open>\<open>\([^)]+\)\<close>: an opening parenthesis, one or more other characters, a closing one.\<close>

definition re_paren :: "string \<Rightarrow> nat option" where
  "re_paren s =
     (case s of
        [] \<Rightarrow> None
      | c # r \<Rightarrow>
          if c = CHR ''(''
          then (let run = takeWhile (\<lambda>x. x \<noteq> CHR '')'') r
                in if run = [] \<or> dropWhile (\<lambda>x. x \<noteq> CHR '')'') r = [] then None
                   else Some (length run + 2))
          else None)"

text \<open>\<open>\([^)]+\)\s*Tj\<close>\<close>

definition re_text_object :: "string \<Rightarrow> nat option" where
  "re_text_object s =
     (case re_paren s of
        None \<Rightarrow> None
      | Some n \<Rightarrow>
          let ws = takeWhile isSpace (drop n s)
          in if starts_with ''Tj'' (drop (n + length ws) s) then Some (n + length ws + 2)
             else None)"

text \<open>\<open>s.replace(/^lit\s*/, '')\<close> for a literal string \<open>lit\<close>.\<close>

definition strip_prefix_ws :: "string \<Rightarrow> string \<Rightarrow> string" where
  "strip_prefix_ws lit s =
     (if starts_with lit s then dropWhile isSpace (drop (length lit) s) else s)"

text \<open>
  \<open>s.replace(/\s*lit$/, '')\<close>: the leftmost position from which the rest of the string is
  white space followed by \<open>lit\<close> is where the string is cut.
\<close>

fun strip_suffix_ws :: "string \<Rightarrow> string \<Rightarrow> string" where
  "strip_suffix_ws lit [] = []"
| "strip_suffix_ws lit (c # cs) =
     (if dropWhile isSpace (c # cs) = lit then [] else c # strip_suffix_ws lit cs)"

section \<open>Text extraction from a PDF buffer (the \<open>download_pdf\<close> action of the edge function)\<close>

text \<open>
  The buffer is a list of bytes, each a \<^typ>\<open>char\<close>.  \<open>TextDecoder('latin1')\<close> gives one code
  unit for each byte, so the decoded text is modelled by the same list: a character of it
  stands for the code unit decoded from that byte.  The bytes below 128 decode to themselves,
  byte 160 decodes to the no-break space, and no other byte decodes to white space, a word
  character or a character named in the regular expressions below.
\<close>

definition printable :: "char \<Rightarrow> bool" where
  "printable c = (CHR 0x20 \<le> c \<and> c \<le> CHR 0x7E)"

text \<open>The readable text of one stream: the three replacements and the trim of method 1.\<close>

definition stream_readable :: "string \<Rightarrow> string" where
  "stream_readable stream =
     (let content = strip_suffix_ws ''endstream'' (strip_prefix_ws ''stream'' stream)
      in trim (collapse_ws
           (map (\<lambda>c. if printable c \<or> c = CHR 0x0A \<or> c = CHR 0x0D \<or> c = CHR 0x09
                      then c else CHR '' '') content)))"

definition add_stream :: "string \<Rightarrow> string \<Rightarrow> string" where
  "add_stream extracted stream =
     (let readable = stream_readable stream
      in if length readable > 20 then extracted @ readable @ '' '' else extracted)"

text \<open>
  Method 2: the first group of \<open>\(([^)]+)\)\<close> in a text object is the match without its
  two parentheses.
\<close>

definition add_text_object :: "string \<Rightarrow> string \<Rightarrow> string" where
  "add_text_object extracted textObj =
     (case match_first re_paren textObj of
        None \<Rightarrow> extracted
      | Some m \<Rightarrow>
          let text = butlast (tl m)
          in if text \<noteq> [] \<and> length text > 2 then extracted @ text @ '' '' else extracted)"

text \<open>Method 3: the words in parentheses of a block \<open>BT ... ET\<close>.\<close>

definition add_word :: "string \<Rightarrow> string \<Rightarrow> string" where
  "add_word extracted word =
     (let cleanWord = trim (filter (\<lambda>c. c \<noteq> CHR ''('' \<and> c \<noteq> CHR '')'') word)
      in if length cleanWord > 1 \<and> list_ex isLetter cleanWord
         then extracted @ cleanWord @ '' '' else extracted)"

definition add_text_block :: "string \<Rightarrow> string \<Rightarrow> string" where
  "add_text_block extracted block =
     (let content = strip_suffix_ws ''ET'' (strip_prefix_ws ''BT'' block)
      in foldl add_word extracted (match_all re_paren content))"

text \<open>
  Methods 1 to 3 in their order: the text they add up and the tags they push.  A tag is
  pushed when the method's pattern has a match in the buffer.
\<close>

definition streamMatches :: "string \<Rightarrow> string list" where
  "streamMatches pdfText = match_all (re_block ''stream'' ''endstream'') pdfText"

definition textObjects :: "string \<Rightarrow> string list" where
  "textObjects pdfText = match_all re_text_object pdfText"

definition textBlocks :: "string \<Rightarrow> string list" where
  "textBlocks pdfText = match_all (re_block ''BT'' ''ET'') pdfText"

definition structured_text :: "string \<Rightarrow> string" where
  "structured_text pdfText =
     foldl add_text_block
       (foldl add_text_object
          (foldl add_stream [] (streamMatches pdfText))
          (textObjects pdfText))
       (textBlocks pdfText)"

definition structured_methods :: "string \<Rightarrow> string list" where
  "structured_methods pdfText =
     (if streamMatches pdfText \<noteq> [] then [''stream_extraction''] else []) @
     (if textObjects pdfText \<noteq> [] then [''text_objects''] else []) @
     (if textBlocks pdfText \<noteq> [] then [''text_blocks''] else [])"

text \<open>
  Method 4.  The loop runs over the indices \<open>0\<close> to \<open>length - 2\<close>, as its condition
  \<open>i < uint8Array.length - 1\<close> says.
\<close>

definition fallback_step :: "string \<Rightarrow> char \<Rightarrow> string" where
  "fallback_step fallbackText char =
     (if printable char then fallbackText @ [char]
      else if (char = CHR 0x0A \<or> char = CHR 0x0D) \<and> length fallbackText > 0
           then fallbackText @ '' ''
           else fallbackText)"

definition ascii_fallback :: "string \<Rightarrow> string" where
  "ascii_fallback buffer = foldl fallback_step [] (take (length buffer - 1) buffer)"

text \<open>The value of \<open>extractedText\<close> and of \<open>extractionMethods\<close> after method 4.\<close>

definition extract_text :: "string \<Rightarrow> string \<times> string list" where
  "extract_text buffer =
     (let extracted = structured_text buffer;
          extractionMethods = structured_methods buffer
      in if length extracted < 100
         then (ascii_fallback buffer, extractionMethods @ [''ascii_fallback''])
         else (extracted, extractionMethods))"

text \<open>The strategies whose accepted output is not empty.\<close>

definition contributing_methods :: "string \<Rightarrow> string list" where
  "contributing_methods pdfText =
     (if foldl add_stream [] (streamMatches pdfText) \<noteq> [] then [''stream_extraction''] else []) @
     (if foldl add_text_object [] (textObjects pdfText) \<noteq> [] then [''text_objects''] else []) @
     (if foldl add_text_block [] (textBlocks pdfText) \<noteq> [] then [''text_blocks''] else [])"

subsection \<open>Cleaning, sentences and sections\<close>

text \<open>\<open>s.replace(/\\e/g, ' ')\<close>: a backslash followed by the letter \<open>e\<close> becomes a space.\<close>

fun replace_escape :: "char \<Rightarrow> string \<Rightarrow> string" where
  "replace_escape e (a # b # r) =
     (if a = CHR 0x5C \<and> b = e then CHR '' '' # replace_escape e r
      else a # replace_escape e (b # r))"
| "replace_escape e s = s"

text \<open>The characters kept by \<open>replace(/[^\w\s.,;:!?()\-"']/g, ' ')\<close>.\<close>

definition allowed :: "char \<Rightarrow> bool" where
  "allowed c = (isWord c \<or> isSpace c \<or> c \<in> set ''.,;:!?()-'' \<or> c = CHR 0x22 \<or> c = CHR 0x27)"

definition clean_extracted :: "string \<Rightarrow> string" where
  "clean_extracted extracted =
     trim (map (\<lambda>c. if allowed c then c else CHR '' '')
            (collapse_ws
               (replace_escape CHR ''t''
                  (replace_escape CHR ''r''
                     (replace_escape CHR ''n'' extracted)))))"

definition sentences_of :: "string \<Rightarrow> string list" where
  "sentences_of extracted =
     map (\<lambda>s. s @ ''.'')
       (filter (\<lambda>s. length s > 10 \<and> list_ex isLetter s)
          (map trim (split_runs (\<lambda>c. c \<in> set ''.!?'') extracted)))"

text \<open>The loop that packs sentences into sections; the state is \<open>(currentSection, sections)\<close>.\<close>

definition section_step :: "string \<times> string list \<Rightarrow> string \<Rightarrow> string \<times> string list" where
  "section_step st sentence =
     (case st of (currentSection, secs) \<Rightarrow>
        if length currentSection + length sentence > 800
        then (sentence @ '' '', if trim currentSection \<noteq> [] then secs @ [trim currentSection] else secs)
        else (currentSection @ sentence @ '' '', secs))"

definition sections_of :: "string \<Rightarrow> string list \<Rightarrow> string list" where
  "sections_of cleanedText sentences =
     (if length cleanedText > 500
      then (case foldl section_step ([], []) sentences of
              (currentSection, secs) \<Rightarrow>
                if trim currentSection \<noteq> [] then secs @ [trim currentSection] else secs)
      else [cleanedText])"

definition truncation_marker :: string where
  "truncation_marker = ''... [Content truncated]''"

definition placeholder :: "string \<Rightarrow> string" where
  "placeholder file_id =
     ''PDF document content extracted from file '' @ file_id @
     ''. The document may contain complex formatting or embedded images that require alternative processing methods for optimal text extraction.''"

text \<open>The cleaned text, cut to 8000 characters.\<close>

definition truncate_text :: "string \<Rightarrow> string" where
  "truncate_text cleanedText =
     (if length cleanedText > 8000
      then take 8000 cleanedText @ truncation_marker else cleanedText)"

text \<open>The final text, from the cleaned text.\<close>

definition final_text :: "string \<Rightarrow> string \<Rightarrow> string" where
  "final_text file_id cleanedText =
     (if length (truncate_text cleanedText) < 50 then placeholder file_id
      else truncate_text cleanedText)"

text \<open>The cleaned text of a buffer: the kept sentences of the cleaned extracted text.\<close>

definition cleanedText_of :: "string \<Rightarrow> string" where
  "cleanedText_of pdfBuffer =
     join '' '' (sentences_of (clean_extracted (fst (extract_text pdfBuffer))))"

record PdfResponse =
  content :: string
  response_sections :: "string list"
  originalSize :: nat
  extractedLength :: nat
  sectionCount :: nat
  extractionMethods :: "string list"

text \<open>
  The extraction of the \<open>download_pdf\<close> action, from the downloaded buffer; an empty buffer
  is answered with an error.
\<close>

definition download_pdf :: "string \<Rightarrow> string \<Rightarrow> error + PdfResponse" where
  "download_pdf file_id pdfBuffer =
     (if length pdfBuffer = 0 then Inl (Error ''PDF file is empty or could not be downloaded'')
      else
        let extracted = clean_extracted (fst (extract_text pdfBuffer));
            sentences = sentences_of extracted;
            cleanedText = join '' '' sentences;
            secs = sections_of cleanedText sentences;
            finalText = final_text file_id cleanedText;
            secs' = (if length (truncate_text cleanedText) < 50 then secs @ [finalText] else secs)
        in Inr \<lparr>content = finalText,
                response_sections = take 5 secs',
                originalSize = length pdfBuffer,
                extractedLength = length finalText,
                sectionCount = length secs',
                extractionMethods = snd (extract_text pdfBuffer)\<rparr>)"

text \<open>The length of the text in a response; 0 for an error.\<close>

fun content_length :: "error + PdfResponse \<Rightarrow> nat" where
  "content_length (Inl e) = 0"
| "content_length (Inr r) = length (content r)"

section \<open>Preprocessing and sectioning of a paper's text (ragService.ts)\<close>

subsection \<open>\<open>preprocessTextForSearch\<close>\<close>

text \<open>\<open>replace(/([a-z])([A-Z])/g, '$1 $2')\<close>\<close>

fun space_camel :: "string \<Rightarrow> string" where
  "space_camel (a # b # r) =
     (if isLower a \<and> isUpper b then a # CHR '' '' # b # space_camel r
      else a # space_camel (b # r))"
| "space_camel s = s"

text \<open>
  \<open>replace(/\b(\d+)([a-zA-Z])/g, '$1 $2')\<close>.  The flag \<open>prevWord\<close> says that the character
  before the current position is a word character; a run of digits starts at a word boundary
  when it is not.
\<close>

function space_digit_letter :: "bool \<Rightarrow> string \<Rightarrow> string" where
  "space_digit_letter prevWord [] = []"
| "space_digit_letter prevWord (c # cs) =
     (case dropWhile isDigit (c # cs) of
        [] \<Rightarrow> c # space_digit_letter (isWord c) cs
      | l # r \<Rightarrow>
          if isDigit c \<and> isLetter l \<and> prevWord = False
          then takeWhile isDigit (c # cs) @ CHR '' '' # l # space_digit_letter True r
          else c # space_digit_letter (isWord c) cs)"
  by pat_completeness auto
termination
proof (relation "measure (\<lambda>(p, s). length s)")
  fix c :: char and cs l r
  assume "dropWhile isDigit (c # cs) = l # r"
  then have "length (l # r) \<le> length (c # cs)"
    by (metis length_dropWhile_le)
  then show "((True, r), (prevWord, c # cs)) \<in> measure (\<lambda>(p, s). length s)" for prevWord :: bool
    by simp
qed simp_all

text \<open>\<open>replace(/([a-zA-Z])(\d+)/g, '$1 $2')\<close>\<close>

function space_letter_digit :: "string \<Rightarrow> string" where
  "space_letter_digit [] = []"
| "space_letter_digit (c # cs) =
     (if isLetter c \<and> takeWhile isDigit cs \<noteq> []
      then c # CHR '' '' # takeWhile isDigit cs @ space_letter_digit (dropWhile isDigit cs)
      else c # space_letter_digit cs)"
  by pat_completeness auto
termination
  by (relation "measure length") (auto intro: le_imp_less_Suc length_dropWhile_le)

text \<open>\<open>replace(/\s*([.,;:!?])\s*/g, '$1 ')\<close>\<close>

definition isPunct :: "char \<Rightarrow> bool" where
  "isPunct c = (c \<in> set ''.,;:!?'')"

function space_punct :: "string \<Rightarrow> string" where
  "space_punct [] = []"
| "space_punct (c # cs) =
     (case dropWhile isSpace (c # cs) of
        [] \<Rightarrow> c # space_punct cs
      | p # r \<Rightarrow>
          if isPunct p then p # CHR '' '' # space_punct (dropWhile isSpace r)
          else c # space_punct cs)"
  by pat_completeness auto
termination
proof (relation "measure length")
  fix c :: char and cs p r
  assume "dropWhile isSpace (c # cs) = p # r"
  then have "length (p # r) \<le> length (c # cs)"
    by (metis length_dropWhile_le)
  moreover have "length (dropWhile isSpace r) \<le> length r"
    by (rule length_dropWhile_le)
  ultimately show "(dropWhile isSpace r, c # cs) \<in> measure length"
    by simp
qed simp_all

text \<open>\<open>replace(/\s{2,}/g, ' ')\<close>\<close>

function collapse_ws2 :: "string \<Rightarrow> string" where
  "collapse_ws2 [] = []"
| "collapse_ws2 (c # cs) =
     (if isSpace c \<and> takeWhile isSpace cs \<noteq> []
      then CHR '' '' # collapse_ws2 (dropWhile isSpace cs)
      else c # collapse_ws2 cs)"
  by pat_completeness auto
termination
  by (relation "measure length") (auto intro: le_imp_less_Suc length_dropWhile_le)

definition preprocessTextForSearch :: "string \<Rightarrow> string" where
  "preprocessTextForSearch text =
     trim (collapse_ws2 (space_punct (space_letter_digit (space_digit_letter False
       (space_camel (collapse_ws text))))))"

text \<open>
  The normalization pipeline in the order of its steps: the cleaning of the extracted text in
  the edge function (escape sequences, white space, character filter), then the insertion of
  spaces at case and letter/digit boundaries in \<open>preprocessTextForSearch\<close>.
\<close>

definition normalize :: "string \<Rightarrow> string" where
  "normalize s = preprocessTextForSearch (clean_extracted s)"

text \<open>
  A text in which every white space character is a space that is not followed by another
  white space character: the texts that \<open>replace(/\s+/g, ' ')\<close> leaves as they are.
\<close>

fun single_spaced :: "string \<Rightarrow> bool" where
  "single_spaced [] = True"
| "single_spaced [c] = (isSpace c \<longrightarrow> c = CHR '' '')"
| "single_spaced (a # b # r) =
     ((isSpace a \<longrightarrow> a = CHR '' '' \<and> \<not> isSpace b) \<and> single_spaced (b # r))"

subsection \<open>Texts that the steps of the pipeline leave as they are\<close>

text \<open>Every white space character of the text is a space.\<close>

definition only_spaces :: "string \<Rightarrow> bool" where
  "only_spaces s = list_all (\<lambda>c. isSpace c \<longrightarrow> c = CHR '' '') s"

text \<open>
  \<open>spaced xs ys\<close>: \<open>ys\<close> is \<open>xs\<close> with spaces inserted between some adjacent word characters.
  \<open>punct_normal\<close>: every punctuation mark is followed by a space or is the last character,
  and a white space character stands in front of a punctuation mark only behind another one;
  the flag says that the character before is a punctuation mark.
\<close>

inductive spaced :: "string \<Rightarrow> string \<Rightarrow> bool" where
  spaced_Nil: "spaced [] []"
| spaced_Keep: "spaced xs ys \<Longrightarrow> spaced (c # xs) (c # ys)"
| spaced_Ins: "spaced (b # xs) ys \<Longrightarrow> isWord a \<Longrightarrow> isWord b \<Longrightarrow>
               spaced (a # b # xs) (a # CHR '' '' # ys)"

fun punct_normal :: "bool \<Rightarrow> string \<Rightarrow> bool" where
  "punct_normal f [] = True"
| "punct_normal f (c # cs) =
     (if isPunct c then (cs = [] \<or> hd cs = CHR '' '') \<and> punct_normal True cs
      else if isSpace c then (f \<or> cs = [] \<or> \<not> isPunct (hd cs)) \<and> punct_normal False cs
      else punct_normal False cs)"

text \<open>
  No lower-case letter is followed by a capital, no letter is followed by a digit, and the
  text as \<open>preprocessTextForSearch\<close> returns it.
\<close>

definition camel_free :: "string \<Rightarrow> bool" where
  "camel_free s = successively (\<lambda>a b. (isLower a \<and> isUpper b) = False) s"

definition letter_digit_free :: "string \<Rightarrow> bool" where
  "letter_digit_free s = successively (\<lambda>a b. (isLetter a \<and> isDigit b) = False) s"

definition settled :: "string \<Rightarrow> bool" where
  "settled s =
     (single_spaced s \<and> trim s = s \<and> punct_normal False s \<and> camel_free s \<and> letter_digit_free s)"

subsection \<open>\<open>extractRelevantSections\<close>\<close>

text \<open>
  The section labels of \<open>(Abstract|Introduction|Methods?|Results?|Discussion|Conclusion|References?)\<close>,
  each with the mark of an optional final \<open>s\<close>.
\<close>

definition header_names :: "(string \<times> bool) list" where
  "header_names =
     [(''Abstract'', False), (''Introduction'', False), (''Method'', True), (''Result'', True),
      (''Discussion'', False), (''Conclusion'', False), (''Reference'', True)]"

text \<open>Matching a literal under the flag \<open>i\<close>.\<close>

definition ci_starts_with :: "string \<Rightarrow> string \<Rightarrow> bool" where
  "ci_starts_with p s =
     (length p \<le> length s \<and> toLowerCase (take (length p) s) = toLowerCase p)"

text \<open>\<open>\b\<close> behind a word character: the end of the string or a character outside \<open>\w\<close>.\<close>

definition boundary_before :: "string \<Rightarrow> bool" where
  "boundary_before s = (case s of [] \<Rightarrow> True | c # r \<Rightarrow> isWord c = False)"

text \<open>One alternative followed by \<open>\b\<close>, at the start of a string: the length of the match.\<close>

definition match_header_name :: "string \<times> bool \<Rightarrow> string \<Rightarrow> nat option" where
  "match_header_name nm s =
     (case nm of (name, optional_s) \<Rightarrow>
        if ci_starts_with name s
        then (let rest = drop (length name) s
              in if optional_s \<and> ci_starts_with ''s'' rest
                 then (if boundary_before (drop 1 rest) then Some (length name + 1) else None)
                 else (if boundary_before rest then Some (length name) else None))
        else None)"

fun first_header :: "(string \<times> bool) list \<Rightarrow> string \<Rightarrow> nat option" where
  "first_header [] s = None"
| "first_header (nm # nms) s =
     (case match_header_name nm s of Some k \<Rightarrow> Some k | None \<Rightarrow> first_header nms s)"

text \<open>
  The delimiter \<open>\n\s*(...)\b\<close> behind its line feed: the number of characters it takes and
  the text of its group.
\<close>

definition header_after :: "string \<Rightarrow> (nat \<times> string) option" where
  "header_after cs =
     (let r = dropWhile isSpace cs
      in case first_header header_names r of
           None \<Rightarrow> None
         | Some k \<Rightarrow> Some (length (takeWhile isSpace cs) + k, take k r))"

text \<open>
  \<open>text.split(sectionDelimiters)\<close>: the pieces between the delimiters, each delimiter's group
  between them; \<open>piece\<close> is the piece read so far.
\<close>

function split_headers :: "string \<Rightarrow> string \<Rightarrow> string list" where
  "split_headers [] piece = [piece]"
| "split_headers (c # cs) piece =
     (if c = CHR 0x0A
      then (case header_after cs of
              None \<Rightarrow> split_headers cs (piece @ [c])
            | Some (k, header) \<Rightarrow> piece # header # split_headers (drop k cs) [])
      else split_headers cs (piece @ [c]))"
  by pat_completeness auto
termination
  by (relation "measure (\<lambda>(s, p). length s)") auto

text \<open>The loop over \<open>parts[1], parts[3], ...\<close> with the contents \<open>parts[2], parts[4], ...\<close>.\<close>

fun header_sections :: "string list \<Rightarrow> string list" where
  "header_sections (header # body # rest) =
     (if body \<noteq> [] \<and> length (trim body) > 100
      then (header @ '': '' @ take 1000 (trim body)) # header_sections rest
      else header_sections rest)"
| "header_sections ps = []"

text \<open>
  The delimiter \<open>\n\s*\n\<close> behind its first line feed: white space up to the last line feed
  of the run of white space.
\<close>

definition paragraph_break :: "string \<Rightarrow> nat option" where
  "paragraph_break cs =
     (let run = takeWhile isSpace cs
      in if CHR 0x0A \<in> set run
         then Some (length run - length (takeWhile (\<lambda>c. c \<noteq> CHR 0x0A) (rev run)))
         else None)"

function split_paragraphs :: "string \<Rightarrow> string \<Rightarrow> string list" where
  "split_paragraphs [] piece = [piece]"
| "split_paragraphs (c # cs) piece =
     (if c = CHR 0x0A
      then (case paragraph_break cs of
              None \<Rightarrow> split_paragraphs cs (piece @ [c])
            | Some k \<Rightarrow> piece # split_paragraphs (drop k cs) [])
      else split_paragraphs cs (piece @ [c]))"
  by pat_completeness auto
termination
  by (relation "measure (\<lambda>(s, p). length s)") auto

definition paragraph_sections :: "string list \<Rightarrow> string list" where
  "paragraph_sections paragraphs =
     concat (map (\<lambda>(index, paragraph).
                    let cleanParagraph = trim paragraph
                    in if length cleanParagraph > 100
                       then [''Section '' @ show_nat (index + 1) @ '': '' @ take 1000 cleanParagraph]
                       else [])
                 (enumerate 0 paragraphs))"

text \<open>The dot of a regular expression matches every character but a line terminator.\<close>

definition isLineTerminator :: "char \<Rightarrow> bool" where
  "isLineTerminator c = (c = CHR 0x0A \<or> c = CHR 0x0D)"

text \<open>\<open>.{1,1000}\<close>\<close>

definition re_chunk :: "string \<Rightarrow> nat option" where
  "re_chunk s =
     (let k = length (takeWhile (\<lambda>c. isLineTerminator c = False) (take 1000 s))
      in if k = 0 then None else Some k)"

definition chunk_sections :: "string list \<Rightarrow> string list" where
  "chunk_sections chunks =
     map (\<lambda>(index, chunk). ''Content Part '' @ show_nat (index + 1) @ '': '' @ trim chunk)
         (enumerate 0 chunks)"

definition structured_sections :: "string \<Rightarrow> string list" where
  "structured_sections text =
     (let parts = split_headers text []
      in if length parts > 1 then header_sections (tl parts)
         else paragraph_sections
                (take 10 (filter (\<lambda>p. length (trim p) > 100) (split_paragraphs text []))))"

definition extractRelevantSections :: "string \<Rightarrow> string list" where
  "extractRelevantSections text =
     (let secs = structured_sections text
      in if length secs = 0 then chunk_sections (take 5 (match_all re_chunk text)) else secs)"

section \<open>Example data\<close>

definition paper1 :: SourcePaper where
  "paper1 = \<lparr>paper_id = ''p1'', paper_title = ''Gene study'', authors = [''A. Author''],
             url = ''http://x/p1'', extractedText = ''gene expression in mice'',
             relevantSections = [''gene expression in mice''], citationStyle = ''Author (2020)''\<rparr>"

definition paper2 :: SourcePaper where
  "paper2 = \<lparr>paper_id = ''p2'', paper_title = ''Unrelated'', authors = [],
             url = ''http://x/p2'', extractedText = ''zzz'',
             relevantSections = [], citationStyle = ''''\<rparr>"

definition hyp1 :: HypothesisWithSources where
  "hyp1 = \<lparr>hyp_id = ''h1'', hyp_title = ''H'', hyp_description = ''D'', status = Draft,
           hyp_confidence = 50, sourcePapers = [paper1], extractedEvidence = [],
           tags = [], createdAt = ''t0'', updatedAt = ''t0'', knowledgeGraphNodeId = None\<rparr>"

definition hyp2 :: HypothesisWithSources where
  "hyp2 = hyp1\<lparr>hyp_id := ''h2'', sourcePapers := [paper1, paper2]\<rparr>"

definition store1 :: store where
  "store1 = run_ops empty_store [AddPaper paper1, AddHypothesis hyp1]"

definition node1 :: KnowledgeGraphNode where
  "node1 = \<lparr>node_id = ''paper_p1'', label = ''Gene study'', node_type = Paper,
             sourceType = Paper_metadata, importance = 0.8,
             metadata = \<lparr>md_sourcePapers = Some [''p1''], md_confidence = None,
                          md_description = Some ''Research paper: Gene study''\<rparr>,
             node_connections = [''hypothesis_h1'']\<rparr>"

definition ops1 :: "store_op list" where
  "ops1 = [AddPaper paper2, AddHypothesis hyp2, UpdateHypothesisStatus ''h1'' Validated ''t1'']"

definition paper3 :: SourcePaper where
  "paper3 = \<lparr>paper_id = ''p3'', paper_title = ''Soil'', authors = [],
             url = ''http://x/p3'', extractedText = ''Clay and sand'',
             relevantSections = [''Clay and sand''], citationStyle = ''''\<rparr>"

definition paper4 :: SourcePaper where
  "paper4 = \<lparr>paper_id = ''p4'', paper_title = ''Gene'', authors = [],
             url = ''http://x/p4'', extractedText = ''gene'',
             relevantSections = [], citationStyle = ''''\<rparr>"

definition paper5 :: SourcePaper where
  "paper5 = \<lparr>paper_id = ''p5'', paper_title = ''Mice'', authors = [],
             url = ''http://x/p5'', extractedText = ''mice drives'',
             relevantSections = [], citationStyle = ''''\<rparr>"

text \<open>
  A buffer with a stream of one character and a text object of 100 characters, and the
  response for the buffer \<open>AB\<close> and the file id \<open>FILE\<close>.
\<close>

definition buf1 :: string where
  "buf1 = ''stream x endstream('' @ replicate 100 CHR ''a'' @ '')Tj''"

definition response_AB :: PdfResponse where
  "response_AB =
     \<lparr>content = placeholder ''FILE'',
      response_sections = [[], placeholder ''FILE''],
      originalSize = 2, extractedLength = 182, sectionCount = 2,
      extractionMethods = [''ascii_fallback'']\<rparr>"

section \<open>Properties of the store\<close>

lemma filter_missing_nonempty:
  assumes "p \<in> set ps" and "m (paper_id p) = None"
  shows "filter (\<lambda>paper. m (paper_id paper) = None) ps \<noteq> []"
  using assms by (auto simp: filter_empty_conv)

text \<open>
  Claim C1.  When some source paper of the hypothesis is not in the store, \<open>addHypothesis\<close>
  throws the missing-source error and the store after the call is the store before it:
  hypotheses, papers, graph nodes (with their connection lists) and graph connections.
\<close>

theorem addHypothesis_missing_source:
  assumes "\<exists>p \<in> set (sourcePapers h). papers s (paper_id p) = None"
  shows "addHypothesis s h =
           (s, Inl (Error (''Missing source papers: '' @
                 join '', '' (map paper_id (filter (\<lambda>p. papers s (paper_id p) = None) (sourcePapers h))))))"
proof -
  from assms obtain p where "p \<in> set (sourcePapers h)" and "papers s (paper_id p) = None"
    by blast
  then have "filter (\<lambda>paper. papers s (paper_id paper) = None) (sourcePapers h) \<noteq> []"
    by (rule filter_missing_nonempty)
  then show ?thesis
    by (simp add: addHypothesis_def)
qed

theorem addHypothesis_missing_source_witness:
  "(\<exists>p \<in> set (sourcePapers hyp2). papers (addPaper empty_store paper1) (paper_id p) = None) \<and>
   addHypothesis (addPaper empty_store paper1) hyp2 =
     (addPaper empty_store paper1, Inl (Error ''Missing source papers: p2''))"
proof -
  have h: "\<exists>p \<in> set (sourcePapers hyp2). papers (addPaper empty_store paper1) (paper_id p) = None"
    by (simp add: hyp2_def hyp1_def paper1_def paper2_def addPaper_def empty_store_def paperNodeId_def)
  show ?thesis
    using h addHypothesis_missing_source [OF h]
    by (simp add: hyp2_def hyp1_def paper1_def paper2_def addPaper_def empty_store_def paperNodeId_def)
qed

subsection \<open>Nodes and their connections over sequences of operations\<close>

lemma grows_refl: "grows s s nid"
  by (simp add: grows_def split: option.splits)

lemma grows_trans: "grows s s' nid \<Longrightarrow> grows s' s'' nid \<Longrightarrow> grows s s'' nid"
  by (auto simp: grows_def split: option.splits)

lemma grows_persists: "grows s s' nid \<Longrightarrow> persists s s' nid"
  by (auto simp: grows_def persists_def split: option.splits)

lemma persists_trans: "persists s s' nid \<Longrightarrow> persists s' s'' nid \<Longrightarrow> persists s s'' nid"
  by (auto simp: persists_def)

lemma grows_push_connection: "grows s (push_connection k x s) nid"
  by (auto simp: grows_def push_connection_def split: option.splits)

lemma grows_connections_update: "grows s (s\<lparr>connections := c\<rparr>) nid"
  by (simp add: grows_def split: option.splits)

lemma grows_connect_paper: "grows s (connect_paper h nodeId s paper) nid"
proof -
  let ?s1 = "s\<lparr>connections := (connections s)(nodeId @ ''_to_'' @ paperNodeId (paper_id paper) \<mapsto>
      \<lparr>sourceId = nodeId, targetId = paperNodeId (paper_id paper), conn_type = Derived_from,
       weight = 0.8,
       conn_evidence = map (\<lambda>ev. \<lparr>ce_paperId = paper_id paper, ce_evidenceText = ev_evidenceText ev,
                                       ce_confidence = hyp_confidence h / 100\<rparr>)
                          (filter (\<lambda>ev. ev_paperId ev = paper_id paper) (extractedEvidence h))\<rparr>)\<rparr>"
  let ?s2 = "push_connection nodeId (paperNodeId (paper_id paper)) ?s1"
  have 1: "grows s ?s1 nid" by (rule grows_connections_update)
  have 2: "grows ?s1 ?s2 nid" by (rule grows_push_connection)
  have 3: "grows ?s2 (push_connection (paperNodeId (paper_id paper)) nodeId ?s2) nid"
    by (rule grows_push_connection)
  show ?thesis
    using grows_trans [OF grows_trans [OF 1 2] 3] by (simp add: connect_paper_def Let_def)
qed

lemma grows_foldl_connect_paper: "grows s (foldl (connect_paper h nodeId) s ps) nid"
proof (induction ps arbitrary: s)
  case Nil
  show ?case by (simp add: grows_refl)
next
  case (Cons p ps)
  show ?case
    using grows_trans [OF grows_connect_paper Cons.IH] by simp
qed

lemma persists_addPaper: "persists s (addPaper s paper) nid"
  by (simp add: persists_def addPaper_def Let_def)

lemma grows_addPaper: "nid \<noteq> paperNodeId (paper_id paper) \<Longrightarrow> grows s (addPaper s paper) nid"
  by (simp add: grows_def addPaper_def Let_def split: option.splits)

lemma persists_addHypothesis: "persists s (fst (addHypothesis s h)) nid"
proof (cases "filter (\<lambda>paper. papers s (paper_id paper) = None) (sourcePapers h) = []")
  case False
  then show ?thesis by (simp add: addHypothesis_def persists_def)
next
  case True
  let ?s1 = "s\<lparr>hypotheses := (hypotheses s)(hyp_id h \<mapsto> h\<lparr>knowledgeGraphNodeId := Some (hypothesisNodeId (hyp_id h))\<rparr>),
       knowledgeGraph := (knowledgeGraph s)(hypothesisNodeId (hyp_id h) \<mapsto>
          \<lparr>node_id = hypothesisNodeId (hyp_id h), label = hyp_title h, node_type = Hypothesis,
           sourceType = Pdf_extracted, importance = hyp_confidence h / 100,
           metadata = \<lparr>md_sourcePapers = Some (map paper_id (sourcePapers h)),
                        md_confidence = Some (hyp_confidence h),
                        md_description = Some (hyp_description h)\<rparr>,
           node_connections = []\<rparr>)\<rparr>"
  have 1: "persists s ?s1 nid" by (simp add: persists_def)
  have 2: "persists ?s1 (foldl (connect_paper h (hypothesisNodeId (hyp_id h))) ?s1 (sourcePapers h)) nid"
    by (rule grows_persists [OF grows_foldl_connect_paper])
  from True show ?thesis
    using persists_trans [OF 1 2] by (simp add: addHypothesis_def Let_def)
qed

lemma grows_addHypothesis:
  assumes "nid \<noteq> hypothesisNodeId (hyp_id h)"
  shows "grows s (fst (addHypothesis s h)) nid"
proof (cases "filter (\<lambda>paper. papers s (paper_id paper) = None) (sourcePapers h) = []")
  case False
  then show ?thesis by (simp add: addHypothesis_def grows_refl)
next
  case True
  let ?s1 = "s\<lparr>hypotheses := (hypotheses s)(hyp_id h \<mapsto> h\<lparr>knowledgeGraphNodeId := Some (hypothesisNodeId (hyp_id h))\<rparr>),
       knowledgeGraph := (knowledgeGraph s)(hypothesisNodeId (hyp_id h) \<mapsto>
          \<lparr>node_id = hypothesisNodeId (hyp_id h), label = hyp_title h, node_type = Hypothesis,
           sourceType = Pdf_extracted, importance = hyp_confidence h / 100,
           metadata = \<lparr>md_sourcePapers = Some (map paper_id (sourcePapers h)),
                        md_confidence = Some (hyp_confidence h),
                        md_description = Some (hyp_description h)\<rparr>,
           node_connections = []\<rparr>)\<rparr>"
  have 1: "grows s ?s1 nid" using assms by (simp add: grows_def split: option.splits)
  have 2: "grows ?s1 (foldl (connect_paper h (hypothesisNodeId (hyp_id h))) ?s1 (sourcePapers h)) nid"
    by (rule grows_foldl_connect_paper)
  from True show ?thesis
    using grows_trans [OF 1 2] by (simp add: addHypothesis_def Let_def)
qed

lemma grows_updateHypothesisStatus: "grows s (updateHypothesisStatus s hid st now) nid"
  by (auto simp: grows_def updateHypothesisStatus_def Let_def split: option.splits)

lemma persists_apply_op: "persists s (apply_op s op) nid"
  by (cases op) (simp_all add: persists_addPaper persists_addHypothesis
       grows_persists [OF grows_updateHypothesisStatus])

lemma grows_apply_op: "\<not> recreates op nid \<Longrightarrow> grows s (apply_op s op) nid"
  by (cases op) (simp_all add: grows_addPaper grows_addHypothesis grows_updateHypothesisStatus)

lemma persists_run_ops: "persists s (run_ops s ops) nid"
  unfolding run_ops_def
proof (induction ops arbitrary: s)
  case Nil
  show ?case by (simp add: persists_def)
next
  case (Cons op ops)
  show ?case using persists_trans [OF persists_apply_op Cons.IH] by simp
qed

lemma grows_run_ops: "\<forall>op \<in> set ops. \<not> recreates op nid \<Longrightarrow> grows s (run_ops s ops) nid"
  unfolding run_ops_def
proof (induction ops arbitrary: s)
  case Nil
  show ?case by (simp add: grows_refl)
next
  case (Cons op ops)
  then have a: "grows s (apply_op s op) nid" and b: "\<forall>op \<in> set ops. \<not> recreates op nid"
    by (simp_all add: grows_apply_op)
  show ?case using grows_trans [OF a Cons.IH [OF b]] by simp
qed


text \<open>
  Claim C5, as the code has it.  Over every sequence of \<open>addPaper\<close>, \<open>addHypothesis\<close> and
  \<open>updateHypothesisStatus\<close> calls a node that exists is never deleted.  Its connections
  only grow as long as no later call stores a fresh node under its id, that is, no
  \<open>addPaper\<close> for the paper of the node and no \<open>addHypothesis\<close> for the hypothesis of
  the node.
\<close>

theorem nodes_persist_connections_grow:
  assumes "knowledgeGraph s nid = Some n"
  shows "\<exists>n'. knowledgeGraph (run_ops s ops) nid = Some n' \<and>
           ((\<forall>op \<in> set ops. \<not> recreates op nid) \<longrightarrow>
              set (node_connections n) \<subseteq> set (node_connections n'))"
proof -
  from assms persists_run_ops [of s ops nid]
  obtain n' where n': "knowledgeGraph (run_ops s ops) nid = Some n'"
    by (auto simp: persists_def)
  moreover have "set (node_connections n) \<subseteq> set (node_connections n')"
    if "\<forall>op \<in> set ops. \<not> recreates op nid"
    using grows_run_ops [OF that, of s] assms n' by (simp add: grows_def)
  ultimately show ?thesis by blast
qed



theorem nodes_persist_connections_grow_witness:
  "knowledgeGraph store1 ''paper_p1'' = Some node1 \<and>
   \<not> recreates (AddPaper paper2) ''paper_p1'' \<and>
   \<not> recreates (AddHypothesis hyp2) ''paper_p1'' \<and>
   \<not> recreates (UpdateHypothesisStatus ''h1'' Validated ''t1'') ''paper_p1'' \<and>
   (\<exists>n'. knowledgeGraph (run_ops store1 ops1) ''paper_p1'' = Some n' \<and>
         set (node_connections node1) \<subseteq> set (node_connections n'))"
proof -
  have a: "knowledgeGraph store1 ''paper_p1'' = Some node1"
    by code_simp
  have b: "\<not> recreates (AddPaper paper2) ''paper_p1''"
          "\<not> recreates (AddHypothesis hyp2) ''paper_p1''"
          "\<not> recreates (UpdateHypothesisStatus ''h1'' Validated ''t1'') ''paper_p1''"
    by code_simp+
  then have c: "\<forall>op \<in> set ops1. \<not> recreates op ''paper_p1''"
    by (simp add: ops1_def)
  show ?thesis
    using a b c nodes_persist_connections_grow [OF a, of ops1] by blast
qed

text \<open>
  Claim C5 as stated fails: \<open>addPaper\<close> for a paper that is already in the store replaces
  its node by a fresh one with no connections.  After adding paper \<open>p1\<close> and a hypothesis
  derived from it, the node of \<open>p1\<close> is connected to the hypothesis node; adding \<open>p1\<close>
  again leaves the node without connections.
\<close>

theorem connections_only_grow_counterexample:
  "map_option node_connections (knowledgeGraph store1 ''paper_p1'') = Some [''hypothesis_h1''] \<and>
   map_option node_connections (knowledgeGraph (run_ops store1 [AddPaper paper1]) ''paper_p1'') = Some []"
  by code_simp

subsection \<open>Rounding to binary64\<close>

lemma powi_nonneg_eq: "0 \<le> k \<Longrightarrow> (2::real) powi k = 2 ^ nat k"
  by (simp add: power_int_def)

text \<open>
  \<open>floor_log2 a\<close> is the exponent of a positive \<open>a\<close>: \<open>2^e \<le> a < 2^(e+1)\<close> holds for it
  and for no other \<open>e\<close>.
\<close>

lemma floor_log2_lower:
  assumes "0 < a"
  shows "2 powi floor_log2 a \<le> a"
proof (cases "1 \<le> a")
  case True
  let ?m = "\<lfloor>a\<rfloor>"
  from True have m: "0 < ?m" by simp
  then have b1: "1 \<le> bitlen ?m"
    by (simp add: bitlen_alt_def)
  from bitlen_bounds [OF m] have "(2::int) ^ nat (bitlen ?m - 1) \<le> ?m" by simp
  then have "real_of_int (2 ^ nat (bitlen ?m - 1)) \<le> real_of_int ?m"
    by (simp only: of_int_le_iff)
  then have "(2::real) ^ nat (bitlen ?m - 1) \<le> a"
    by (simp add: le_floor_iff)
  with b1 True show ?thesis
    by (simp add: floor_log2_def powi_nonneg_eq)
next
  case False
  let ?N = "\<lceil>1 / a\<rceil>"
  let ?k = "bitlen (?N - 1)"
  from False assms have "1 < 1 / a" by simp
  then have N: "0 < ?N - 1"
    by linarith
  from bitlen_bounds [OF N] have "?N - 1 < 2 ^ nat ?k" by simp
  then have "?N \<le> 2 ^ nat ?k" by simp
  then have "real_of_int ?N \<le> real_of_int (2 ^ nat ?k)"
    by (simp only: of_int_le_iff)
  then have "1 / a \<le> 2 ^ nat ?k"
    by (simp add: ceiling_le_iff)
  then have "1 / 2 ^ nat ?k \<le> a"
    using assms by (simp add: field_simps)
  moreover have "(2::real) powi (- ?k) = 1 / 2 ^ nat ?k"
    using bitlen_nonneg [of "?N - 1"] by (simp add: power_int_def field_simps)
  ultimately show ?thesis
    using False by (simp add: floor_log2_def)
qed

lemma floor_log2_upper:
  assumes "0 < a"
  shows "a < 2 powi (floor_log2 a + 1)"
proof (cases "1 \<le> a")
  case True
  let ?m = "\<lfloor>a\<rfloor>"
  from True have m: "0 < ?m" by simp
  then have b1: "1 \<le> bitlen ?m"
    by (simp add: bitlen_alt_def)
  from bitlen_bounds [OF m] have "?m < 2 ^ nat (bitlen ?m)" by simp
  then have "?m + 1 \<le> 2 ^ nat (bitlen ?m)" by simp
  then have "real_of_int (?m + 1) \<le> real_of_int (2 ^ nat (bitlen ?m))"
    by (simp only: of_int_le_iff)
  moreover have "a < real_of_int (?m + 1)"
    by linarith
  ultimately have "a < real_of_int (2 ^ nat (bitlen ?m))"
    by linarith
  then have "a < 2 ^ nat (bitlen ?m)"
    by simp
  with b1 True show ?thesis
    by (simp add: floor_log2_def powi_nonneg_eq)
next
  case False
  let ?N = "\<lceil>1 / a\<rceil>"
  let ?k = "bitlen (?N - 1)"
  from False assms have "1 < 1 / a" by simp
  then have N: "0 < ?N - 1"
    by linarith
  then have k1: "1 \<le> ?k"
    by (simp add: bitlen_alt_def)
  from bitlen_bounds [OF N] have "2 ^ nat (?k - 1) \<le> ?N - 1" by simp
  then have "real_of_int (2 ^ nat (?k - 1)) \<le> real_of_int (?N - 1)"
    by (simp only: of_int_le_iff)
  moreover have "real_of_int (?N - 1) < 1 / a"
    by linarith
  ultimately have "2 ^ nat (?k - 1) < 1 / a"
    by simp
  then have "a < 1 / 2 ^ nat (?k - 1)"
    using assms by (simp add: field_simps)
  moreover have "(2::real) powi (- ?k + 1) = 1 / 2 ^ nat (?k - 1)"
  proof -
    have "(2::real) powi (- ?k + 1) = 2 powi (- (?k - 1))" by simp
    also have "\<dots> = inverse (2 powi (?k - 1))"
      by (rule power_int_minus)
    also have "\<dots> = 1 / 2 ^ nat (?k - 1)"
      using k1 by (simp add: powi_nonneg_eq field_simps)
    finally show ?thesis .
  qed
  ultimately show ?thesis
    using False by (simp add: floor_log2_def)
qed

lemma powi_less_imp:
  assumes "(2::real) powi m < 2 powi n"
  shows "m < n"
proof (rule ccontr)
  assume "\<not> m < n"
  then have "n \<le> m" by simp
  then have "(2::real) powi n \<le> 2 powi m"
    by (rule power_int_increasing) simp
  with assms show False by simp
qed

lemma floor_log2_unique:
  assumes "0 < a" "2 powi k \<le> a" "a < 2 powi (k + 1)"
  shows "floor_log2 a = k"
proof -
  let ?e = "floor_log2 a"
  have "2 powi ?e < (2::real) powi (k + 1)"
    using floor_log2_lower [OF assms(1)] assms(3) by simp
  then have 1: "?e < k + 1"
    by (rule powi_less_imp)
  have "2 powi k < (2::real) powi (?e + 1)"
    using floor_log2_upper [OF assms(1)] assms(2) by simp
  then have "k < ?e + 1"
    by (rule powi_less_imp)
  with 1 show ?thesis by simp
qed

text \<open>Rounding to an integer keeps the integers and the integer bounds.\<close>

lemma round_half_even_of_int: "round_half_even (of_int n) = n"
  by (simp add: round_half_even_def)

lemma round_half_even_ge:
  assumes "of_int L \<le> m"
  shows "L \<le> round_half_even m"
proof -
  from assms have "L \<le> \<lfloor>m\<rfloor>" by (simp add: le_floor_iff)
  then show ?thesis
    by (simp add: round_half_even_def Let_def)
qed

lemma round_half_even_le:
  assumes "m \<le> of_int U"
  shows "round_half_even m \<le> U"
proof (cases "m = of_int U")
  case True
  then show ?thesis by (simp add: round_half_even_of_int)
next
  case False
  with assms have "m < of_int U" by simp
  then have "\<lfloor>m\<rfloor> < U" by (simp add: floor_less_iff)
  then show ?thesis
    by (simp add: round_half_even_def Let_def)
qed

lemma powi_add_nat: "(2::real) powi (k + int n) = 2 powi k * 2 ^ n"
  by (simp add: power_int_add)

lemma powi_52: "(2::real) powi k = 2 powi (k - 52) * 2 ^ 52"
  using powi_add_nat [of "k - 52" 52] by simp

lemma powi_53: "(2::real) powi (k + 1) = 2 powi (k - 52) * 2 ^ 53"
proof -
  have e: "k + 1 = k - 52 + int 53" by simp
  show ?thesis by (subst e) (rule powi_add_nat)
qed

lemma powi_less_succ: "(2::real) powi k < 2 powi (k + 1)"
  by (rule power_int_strict_increasing) simp_all

text \<open>
  A value that is already rounded is rounded to itself, whether its significand stayed
  below \<open>2^53\<close>, reached it, or the value is subnormal.
\<close>

lemma nearest_double_on_grid:
  assumes "0 < r" and "r = of_int n * 2 powi (max (floor_log2 r) (- 1022) - 52)"
  shows "nearest_double r = r"
proof -
  let ?u = "(2::real) powi (max (floor_log2 r) (- 1022) - 52)"
  have u: "0 < ?u" by simp
  from assms(2) have "r / ?u = of_int n"
    using u by (simp add: field_simps)
  then have "round_half_even (r / ?u) = n"
    by (simp add: round_half_even_of_int)
  then have "nearest_double r = of_int n * ?u"
    by (simp add: nearest_double_def Let_def)
  with assms(2) show ?thesis by simp
qed

lemma nearest_double_idem:
  assumes a: "0 < a" and r: "0 < nearest_double a"
  shows "nearest_double (nearest_double a) = nearest_double a"
proof -
  let ?e = "floor_log2 a"
  let ?E = "max ?e (- 1022)"
  let ?u = "(2::real) powi (?E - 52)"
  let ?n = "round_half_even (a / ?u)"
  let ?r = "nearest_double a"
  have u: "0 < ?u" by simp
  have rdef: "?r = of_int ?n * ?u"
    by (simp add: nearest_double_def Let_def)
  have lo: "2 powi ?e \<le> a" by (rule floor_log2_lower [OF a])
  have hi: "a < 2 powi (?e + 1)" by (rule floor_log2_upper [OF a])
  show ?thesis
  proof (cases "- 1022 \<le> ?e")
    case True
    then have E: "?E = ?e" by simp
    have "?u * 2 ^ 52 \<le> a"
      using lo powi_52 [of ?e] E by simp
    then have "of_int (2 ^ 52) \<le> a / ?u"
      using u by (simp add: field_simps)
    then have n_lo: "2 ^ 52 \<le> ?n"
      by (rule round_half_even_ge)
    have "a < ?u * 2 ^ 53"
      using hi powi_53 [of ?e] E by simp
    then have "a / ?u \<le> of_int (2 ^ 53)"
      using u by (simp add: field_simps)
    then have n_hi: "?n \<le> 2 ^ 53"
      by (rule round_half_even_le)
    show ?thesis
    proof (cases "?n = 2 ^ 53")
      case True
      then have r53: "?r = 2 powi (?e + 1)"
        using rdef E powi_53 [of ?e] by simp
      have "floor_log2 ((2::real) powi (?e + 1)) = ?e + 1"
        by (rule floor_log2_unique) (simp_all only: zero_less_power_int zero_less_numeral
              order_refl powi_less_succ)
      then have "floor_log2 ?r = ?e + 1"
        by (simp only: r53)
      moreover have "max (?e + 1) (- 1022) = ?e + 1"
        using \<open>- 1022 \<le> ?e\<close> by simp
      moreover have "(2::real) powi (?e + 1) = of_int (2 ^ 52) * 2 powi (?e + 1 - 52)"
        using powi_52 [of "?e + 1"] by simp
      ultimately have "?r = of_int (2 ^ 52) * 2 powi (max (floor_log2 ?r) (- 1022) - 52)"
        using r53 by simp
      with r show ?thesis
        by (rule nearest_double_on_grid)
    next
      case False
      with n_hi have "?n < 2 ^ 53" by simp
      then have "real_of_int ?n < real_of_int (2 ^ 53)"
        by (simp only: of_int_less_iff)
      then have "?r < 2 ^ 53 * ?u"
        using u rdef by simp
      then have r_hi: "?r < 2 powi (?e + 1)"
        using powi_53 [of ?e] E by (simp add: mult.commute)
      from n_lo have "real_of_int (2 ^ 52) \<le> real_of_int ?n"
        by (simp only: of_int_le_iff)
      then have "2 ^ 52 * ?u \<le> ?r"
        using u rdef by simp
      then have r_lo: "2 powi ?e \<le> ?r"
        using powi_52 [of ?e] E by (simp add: mult.commute)
      have "floor_log2 ?r = ?e"
        using r r_lo r_hi by (rule floor_log2_unique)
      then have "?r = of_int ?n * 2 powi (max (floor_log2 ?r) (- 1022) - 52)"
        using rdef by simp
      with r show ?thesis
        by (rule nearest_double_on_grid)
    qed
  next
    case False
    then have E: "?E = - 1022" by simp
    from False have "?e + 1 \<le> - 1022" by simp
    then have "(2::real) powi (?e + 1) \<le> 2 powi (- 1022)"
      by (rule power_int_increasing) simp
    with hi have "a < 2 powi (- 1022)" by simp
    then have "a < ?u * 2 ^ 52"
      using powi_52 [of "- 1022"] E by simp
    then have "a / ?u \<le> of_int (2 ^ 52)"
      using u by (simp add: field_simps)
    then have "?n \<le> 2 ^ 52"
      by (rule round_half_even_le)
    then have "real_of_int ?n \<le> real_of_int (2 ^ 52)"
      by (simp only: of_int_le_iff)
    then have "?r \<le> 2 ^ 52 * ?u"
      using u rdef by simp
    then have "?r \<le> 2 powi (- 1022)"
      using powi_52 [of "- 1022"] E by (simp add: mult.commute)
    also have "\<dots> < (2::real) powi (- 1021)"
      by (rule power_int_strict_increasing) simp_all
    finally have "2 powi floor_log2 ?r < (2::real) powi (- 1021)"
      using floor_log2_lower [OF r] by simp
    then have "floor_log2 ?r < - 1021"
      by (rule powi_less_imp)
    then have "max (floor_log2 ?r) (- 1022) = - 1022" by simp
    with E have "max (floor_log2 ?r) (- 1022) = ?E" by (simp only:)
    then have "?r = of_int ?n * 2 powi (max (floor_log2 ?r) (- 1022) - 52)"
      using rdef by (simp only:)
    with r show ?thesis
      by (rule nearest_double_on_grid)
  qed
qed

lemma nearest_double_nonneg:
  assumes "0 < a"
  shows "0 \<le> nearest_double a"
proof -
  let ?u = "(2::real) powi (max (floor_log2 a) (- 1022) - 52)"
  have "0 < ?u" by simp
  with assms have "of_int 0 \<le> a / ?u" by simp
  then have "0 \<le> round_half_even (a / ?u)"
    by (rule round_half_even_ge)
  then show ?thesis
    by (simp add: nearest_double_def Let_def)
qed

lemma binary64_idem:
  assumes "binary64 x = Num r"
  shows "binary64 r = Num r"
proof (cases "x = 0")
  case True
  with assms show ?thesis by (simp add: binary64_def)
next
  case False
  let ?n = "nearest_double \<bar>x\<bar>"
  from False have ax: "0 < \<bar>x\<bar>" by simp
  from assms False have fin: "\<not> 2 powi 1024 \<le> ?n"
    by (auto simp: binary64_def Let_def split: if_splits)
  from assms False fin have rx: "r = (if 0 < x then ?n else - ?n)"
    by (simp add: binary64_def Let_def)
  have nn: "0 \<le> ?n" by (rule nearest_double_nonneg [OF ax])
  show ?thesis
  proof (cases "?n = 0")
    case True
    with rx have "r = 0" by (simp only: minus_zero if_cancel)
    then show ?thesis by (simp add: binary64_def)
  next
    case False
    with nn have pos: "0 < ?n" by simp
    have idem: "nearest_double ?n = ?n"
      by (rule nearest_double_idem [OF ax pos])
    show ?thesis
    proof (cases "0 < x")
      case True
      with rx have "r = ?n" by simp
      with idem fin pos show ?thesis
        by (simp add: binary64_def Let_def)
    next
      case False
      with rx have "r = - ?n" by simp
      with idem fin pos show ?thesis
        by (simp add: binary64_def Let_def)
    qed
  qed
qed

text \<open>The bound \<open>2^1024\<close> as a power with a short exponent, for evaluation.\<close>

lemma binary64_code [code]:
  "binary64 x =
     (if x = 0 then Num 0
      else let r = nearest_double \<bar>x\<bar>
           in if (4294967296 :: real) ^ 32 \<le> r then (if 0 < x then PosInfinity else NegInfinity)
              else Num (if 0 < x then r else - r))"
  by (simp add: binary64_def)

text \<open>
  Sums are binary64 values, and adding the zero to a binary64 value changes nothing.
\<close>

lemma representable_binary64: "representable (binary64 x)"
  by (cases "binary64 x") (simp_all add: binary64_idem)

lemma representable_js_plus: "representable (js_plus a b)"
  by (cases a; cases b) (simp_all add: representable_binary64)

lemma js_plus_zero:
  assumes "representable a"
  shows "js_plus a (Num 0) = a"
  using assms by (cases a) simp_all

lemma representable_foldl_js_plus:
  assumes "representable a"
  shows "representable (foldl js_plus a xs)"
  using assms by (induction xs arbitrary: a) (simp_all add: representable_js_plus)

text \<open>Rounding, sums and quotients by a length keep the numbers from 0 on.\<close>

lemma nonnegative_binary64:
  assumes "0 \<le> x"
  shows "nonnegative (binary64 x)"
proof (cases "x = 0")
  case True
  then show ?thesis by (simp add: binary64_def)
next
  case False
  with assms have "0 < x" by simp
  then have "0 \<le> nearest_double \<bar>x\<bar>"
    by (simp add: nearest_double_nonneg)
  with \<open>0 < x\<close> show ?thesis
    by (simp add: binary64_def Let_def)
qed

lemma nonnegative_js_plus:
  assumes "nonnegative a" and "nonnegative b"
  shows "nonnegative (js_plus a b)"
  using assms by (cases a; cases b) (simp_all add: nonnegative_binary64)

lemma nonnegative_js_div:
  assumes "nonnegative a" and "0 < n"
  shows "nonnegative (js_div a (number_of_length n))"
  using assms by (cases a) (simp_all add: number_of_length_def nonnegative_binary64)

lemma nonnegative_foldl_js_plus:
  assumes "nonnegative a" and "\<And>x. x \<in> set xs \<Longrightarrow> nonnegative x"
  shows "nonnegative (foldl js_plus a xs)"
  using assms by (induction xs arbitrary: a) (simp_all add: nonnegative_js_plus)

lemma percentage_of_nonnegative:
  assumes "nonnegative a"
  shows "is_percentage (Math_min (js_times a (Num 100)) (Num 95))"
proof (cases a)
  case (Num x)
  with assms have "nonnegative (binary64 (x * 100))"
    by (simp add: nonnegative_binary64)
  then have "is_percentage (Math_min (binary64 (x * 100)) (Num 95))"
    by (cases "binary64 (x * 100)") simp_all
  with Num show ?thesis by simp
qed (use assms in simp_all)

subsection \<open>Validation of a hypothesis against its sources\<close>

text \<open>
  The loop over the papers adds the relevance of a paper only when it has a matched word; the
  relevance of the other papers is 0, so the total is the sum of all the relevances.
\<close>

lemma split_ws_nonempty: "split_ws s \<noteq> []"
  unfolding split_ws_def by (subst split_runs.simps) (simp add: Let_def)

lemma relevance_zero:
  assumes "ws \<noteq> []"
  shows "js_div (number_of_length 0) (number_of_length (length ws)) = Num 0"
  using assms by (simp add: number_of_length_def binary64_def)

lemma fst_validate_paper:
  assumes "ws \<noteq> []" and "representable (fst st)"
  shows "fst (validate_paper ws st p) =
           js_plus (fst st) (js_div (number_of_length (length (foundConcepts ws p)))
                                    (number_of_length (length ws)))"
proof (cases "foundConcepts ws p")
  case Nil
  then have "fst (validate_paper ws st p) = fst st"
    by (cases st) (simp add: validate_paper_def)
  with Nil assms show ?thesis
    by (simp add: relevance_zero js_plus_zero)
next
  case (Cons first others)
  then show ?thesis
    by (cases st) (simp add: validate_paper_def Let_def)
qed

lemma warnings_validate_paper:
  "snd (snd (validate_paper ws st p)) =
     snd (snd st) @ (if foundConcepts ws p = []
                     then [''No supporting evidence found in paper: '' @ paper_title p] else [])"
  by (cases st) (simp add: validate_paper_def Let_def split: list.splits)

lemma fst_foldl_validate_paper:
  assumes "ws \<noteq> []" and "representable (fst st)"
  shows "fst (foldl (validate_paper ws) st ps) =
           foldl js_plus (fst st)
             (map (\<lambda>p. js_div (number_of_length (length (foundConcepts ws p)))
                               (number_of_length (length ws))) ps)"
  using assms(2)
proof (induction ps arbitrary: st)
  case Nil
  then show ?case by simp
next
  case (Cons p ps)
  have step: "fst (validate_paper ws st p) =
           js_plus (fst st) (js_div (number_of_length (length (foundConcepts ws p)))
                                    (number_of_length (length ws)))"
    using assms(1) Cons.prems by (rule fst_validate_paper)
  then have "representable (fst (validate_paper ws st p))"
    by (simp only: representable_js_plus)
  then show ?case
    using Cons.IH [of "validate_paper ws st p"] step by simp
qed

lemma warnings_foldl_validate_paper:
  "snd (snd (foldl (validate_paper ws) st ps)) =
     snd (snd st) @ map (\<lambda>p. ''No supporting evidence found in paper: '' @ paper_title p)
                        (filter (\<lambda>p. foundConcepts ws p = []) ps)"
  by (induction ps arbitrary: st) (simp_all add: warnings_validate_paper)

lemma totalRelevance_eq:
  "fst (foldl (validate_paper (split_ws (toLowerCase t))) (Num 0, [], []) ps) =
     foldl js_plus (Num 0) (map (paperRelevance t) ps)"
proof -
  have "paperRelevance t =
          (\<lambda>p. js_div (number_of_length (length (foundConcepts (split_ws (toLowerCase t)) p)))
                       (number_of_length (length (split_ws (toLowerCase t)))))"
    by (rule ext) (simp add: paperRelevance_def matchedWordCount_def foundConcepts_def)
  moreover have "representable (fst (Num 0, [], []))"
    by (simp add: binary64_def)
  ultimately show ?thesis
    using fst_foldl_validate_paper [of "split_ws (toLowerCase t)" "(Num 0, [], [])" ps]
    by (simp add: split_ws_nonempty)
qed

lemma warnings_eq:
  "snd (snd (foldl (validate_paper (split_ws (toLowerCase t))) (Num 0, [], []) ps)) =
     map (\<lambda>p. ''No supporting evidence found in paper: '' @ paper_title p)
         (filter (\<lambda>p. matchedWordCount t p = 0) ps)"
  by (simp add: warnings_foldl_validate_paper matchedWordCount_def foundConcepts_def)

lemma nonnegative_avgRelevance:
  assumes "ps \<noteq> []"
  shows "nonnegative (avgRelevance t ps)"
proof -
  have len: "0 < length (split_ws (toLowerCase t))"
    using split_ws_nonempty [of "toLowerCase t"] by simp
  have "nonnegative (paperRelevance t p)" for p
    unfolding paperRelevance_def
    by (rule nonnegative_js_div [OF _ len]) (simp add: number_of_length_def)
  then have "nonnegative (foldl js_plus (Num 0) (map (paperRelevance t) ps))"
    by (intro nonnegative_foldl_js_plus) auto
  moreover from assms have "0 < length ps" by simp
  ultimately show ?thesis
    unfolding avgRelevance_def by (rule nonnegative_js_div)
qed

text \<open>
  Claim C3.  For a non-empty list of source papers the result of
  \<open>validateHypothesisAgainstSources\<close> has \<open>confidence = min(avgRelevance * 100, 95)\<close> and
  \<open>isValid = (avgRelevance > 0.3)\<close>, where \<open>avgRelevance\<close> is the average over the papers
  of the relevance of each paper: the number of hypothesis words longer than 3 characters
  that occur in the paper's extracted text, divided by the number of all hypothesis words
  (hypothesis and paper text both lower-cased, as the code does).  The quotients, the sum in
  the order of the papers, the product and the comparison are those of the language on its
  numbers, and the confidence is a number between 0 and 100.  Its warnings are one warning,
  naming the paper by its title, for each paper with no matched word, in the order of the
  papers.
\<close>

theorem validateHypothesisAgainstSources_nonempty:
  assumes "ps \<noteq> []"
  shows "confidence (validateHypothesisAgainstSources t ps) =
           Math_min (js_times (avgRelevance t ps) (Num 100)) (Num 95) \<and>
         isValid (validateHypothesisAgainstSources t ps) =
           js_gt (avgRelevance t ps) (binary64 (3 / 10)) \<and>
         warnings (validateHypothesisAgainstSources t ps) =
           map (\<lambda>p. ''No supporting evidence found in paper: '' @ paper_title p)
               (filter (\<lambda>p. matchedWordCount t p = 0) ps) \<and>
         is_percentage (confidence (validateHypothesisAgainstSources t ps))"
proof -
  obtain total ev ws where st: "foldl (validate_paper (split_ws (toLowerCase t))) (Num 0, [], []) ps = (total, ev, ws)"
    by (metis prod_cases3)
  have total: "total = foldl js_plus (Num 0) (map (paperRelevance t) ps)"
    using totalRelevance_eq [of t ps] st by simp
  have ws: "ws = map (\<lambda>p. ''No supporting evidence found in paper: '' @ paper_title p)
                     (filter (\<lambda>p. matchedWordCount t p = 0) ps)"
    using warnings_eq [of t ps] st by simp
  have avg: "js_div total (number_of_length (length ps)) = avgRelevance t ps"
    by (simp add: avgRelevance_def total)
  have "is_percentage (Math_min (js_times (avgRelevance t ps) (Num 100)) (Num 95))"
    using assms by (intro percentage_of_nonnegative nonnegative_avgRelevance)
  then show ?thesis
    by (simp add: validateHypothesisAgainstSources_def Let_def st avg ws)
qed

theorem validateHypothesisAgainstSources_nonempty_witness:
  "confidence (validateHypothesisAgainstSources ''gene mice drives soils clay'' [paper4, paper5]) =
     Num (8444249301319681 / 281474976710656) \<and>
   isValid (validateHypothesisAgainstSources ''gene mice drives soils clay'' [paper4, paper5]) = True \<and>
   warnings (validateHypothesisAgainstSources ''gene mice drives soils clay'' [paper4, paper5]) = [] \<and>
   confidence (validateHypothesisAgainstSources ''gene mice drives soils clay'' [paper4, paper2, paper5]) =
     Num (5629499534213121 / 281474976710656) \<and>
   isValid (validateHypothesisAgainstSources ''gene mice drives soils clay'' [paper4, paper2, paper5]) = False \<and>
   warnings (validateHypothesisAgainstSources ''gene mice drives soils clay'' [paper4, paper2, paper5]) =
     [''No supporting evidence found in paper: Unrelated'']"
proof -
  have ne2: "[paper4, paper5] \<noteq> []" by simp
  have avg2: "avgRelevance ''gene mice drives soils clay'' [paper4, paper5] =
               Num (1351079888211149 / 4503599627370496)"
    by code_simp
  have c2: "Math_min (js_times (Num (1351079888211149 / 4503599627370496)) (Num 100)) (Num 95) =
             Num (8444249301319681 / 281474976710656)"
    by code_simp
  have v2: "js_gt (Num (1351079888211149 / 4503599627370496)) (binary64 (3 / 10)) = True"
    by code_simp
  have m2: "filter (\<lambda>p. matchedWordCount ''gene mice drives soils clay'' p = 0) [paper4, paper5] = []"
    by code_simp
  have ne3: "[paper4, paper2, paper5] \<noteq> []" by simp
  have avg3: "avgRelevance ''gene mice drives soils clay'' [paper4, paper2, paper5] =
               Num (7205759403792795 / 36028797018963968)"
    by code_simp
  have c3: "Math_min (js_times (Num (7205759403792795 / 36028797018963968)) (Num 100)) (Num 95) =
             Num (5629499534213121 / 281474976710656)"
    by code_simp
  have v3: "js_gt (Num (7205759403792795 / 36028797018963968)) (binary64 (3 / 10)) = False"
    by code_simp
  have m3: "filter (\<lambda>p. matchedWordCount ''gene mice drives soils clay'' p = 0) [paper4, paper2, paper5] = [paper2]"
    by code_simp
  have t: "''No supporting evidence found in paper: '' @ paper_title paper2 =
             ''No supporting evidence found in paper: Unrelated''"
    by (simp add: paper2_def)
  show ?thesis
    using validateHypothesisAgainstSources_nonempty [OF ne2, of "''gene mice drives soils clay''"]
      validateHypothesisAgainstSources_nonempty [OF ne3, of "''gene mice drives soils clay''"]
    by (simp only: avg2 c2 v2 m2 avg3 c3 v3 m3 t list.map simp_thms)
qed

text \<open>
  Claim C10.  For an empty list of source papers the validation returns (it is a total
  function: nothing is thrown), with \<open>isValid = false\<close>, no supporting evidence and no
  warnings.  Its confidence is the quotient \<open>0 / 0\<close>, which is \<open>NaN\<close>, so it is not a number
  between 0 and 100.
\<close>

theorem validateHypothesisAgainstSources_empty:
  "validateHypothesisAgainstSources t [] =
     \<lparr>isValid = False, confidence = Math_min (js_times (js_div (Num 0) (Num 0)) (Num 100)) (Num 95),
      supportingEvidence = [], warnings = []\<rparr> \<and>
   confidence (validateHypothesisAgainstSources t []) = NaN \<and>
   \<not> is_percentage (confidence (validateHypothesisAgainstSources t []))"
  by (simp add: validateHypothesisAgainstSources_def number_of_length_def)

subsection \<open>The relevance score\<close>

lemma foldl_score_word:
  "foldl (score_word query text textWords) score qws =
     score + sum_list (map (\<lambda>w. real (exactWordMatches textWords w) * 2 +
                                 real (partialWordMatches textWords w) * 0.5) qws)
           + (if str_includes (toLowerCase text) (toLowerCase query)
              then 3 * real (length qws) else 0)"
  by (induction qws arbitrary: score) (simp_all add: score_word_def Let_def algebra_simps)

lemma raw_score_eq:
  "raw_score query text =
     word_contributions query text +
     (if str_includes (toLowerCase text) (toLowerCase query)
      then 3 * real (length (queryWordsOf query)) else 0)"
  by (simp add: raw_score_def word_contributions_def foldl_score_word)

text \<open>
  Claim C4 on the code.  The test for the phrase is inside the loop over the query words, so
  the bonus of 3 is added once for each query word.  For the query \<open>gene expression\<close> and
  the text \<open>gene expression\<close> the two exact matches contribute 4, the phrase occurs in the
  text, and the raw score is 10: the phrase bonus is 6, not 3.
\<close>

theorem raw_score_phrase_bonus_twice:
  "word_contributions ''gene expression'' ''gene expression'' = 4 \<and>
   str_includes (toLowerCase ''gene expression'') (toLowerCase ''gene expression'') \<and>
   raw_score ''gene expression'' ''gene expression'' = 4 + 6"
  by code_simp


subsection \<open>White space\<close>

lemma space_isSpace: "isSpace (CHR '' '')"
  by (simp add: isSpace_def)

lemma single_spaced_Cons:
  "single_spaced (c # cs) \<longleftrightarrow>
     (isSpace c \<longrightarrow> c = CHR '' '' \<and> (cs = [] \<or> \<not> isSpace (hd cs))) \<and> single_spaced cs"
  by (cases cs) auto

lemma hd_collapse_ws: "s \<noteq> [] \<Longrightarrow> isSpace (hd (collapse_ws s)) = isSpace (hd s)"
  by (cases s) (simp_all add: space_isSpace)

lemma collapse_ws_Nil_iff: "collapse_ws s = [] \<longleftrightarrow> s = []"
  by (cases s) simp_all

lemma single_spaced_collapse_ws: "single_spaced (collapse_ws s)"
proof (induction s rule: collapse_ws.induct)
  case 1
  show ?case by simp
next
  case (2 c cs)
  show ?case
  proof (cases "isSpace c")
    case True
    let ?r = "dropWhile isSpace cs"
    have "collapse_ws ?r = [] \<or> \<not> isSpace (hd (collapse_ws ?r))"
    proof (cases "?r = []")
      case True
      then have "collapse_ws ?r = []"
        by (simp only: collapse_ws.simps)
      then show ?thesis by (rule disjI1)
    next
      case False
      then have "\<not> isSpace (hd ?r)"
        by (rule hd_dropWhile)
      with False show ?thesis
        by (simp add: hd_collapse_ws)
    qed
    with True 2 show ?thesis
      by (simp add: single_spaced_Cons)
  next
    case False
    with 2 show ?thesis
      by (simp add: single_spaced_Cons)
  qed
qed

lemma collapse_ws_single_spaced: "single_spaced s \<Longrightarrow> collapse_ws s = s"
proof (induction s rule: collapse_ws.induct)
  case 1
  show ?case by simp
next
  case (2 c cs)
  from 2(3) have cs: "single_spaced cs"
    by (simp add: single_spaced_Cons)
  show ?case
  proof (cases "isSpace c")
    case True
    with 2(3) have c: "c = CHR '' ''" and h: "cs = [] \<or> \<not> isSpace (hd cs)"
      by (simp_all add: single_spaced_Cons)
    from h have d: "dropWhile isSpace cs = cs"
      by (cases cs) auto
    with True 2(1) cs c show ?thesis by simp
  next
    case False
    with 2(2) cs show ?thesis by simp
  qed
qed

lemma single_spaced_append:
  "single_spaced (a @ b) \<Longrightarrow> single_spaced a \<and> single_spaced b"
proof (induction a)
  case Nil
  then show ?case by simp
next
  case (Cons c a)
  then show ?case
    by (cases a) (auto simp: single_spaced_Cons)
qed

lemma single_spaced_dropWhile: "single_spaced s \<Longrightarrow> single_spaced (dropWhile P s)"
  using single_spaced_append [of "takeWhile P s" "dropWhile P s"] by simp

lemma trim_decomp: "\<exists>t. dropWhile isSpace s = trim s @ t"
proof -
  let ?u = "dropWhile isSpace s"
  have "rev (takeWhile isSpace (rev ?u) @ dropWhile isSpace (rev ?u)) = ?u"
    by (simp only: takeWhile_dropWhile_id rev_rev_ident)
  then have "rev (dropWhile isSpace (rev ?u)) @ rev (takeWhile isSpace (rev ?u)) = ?u"
    by (simp only: rev_append)
  then have "?u = trim s @ rev (takeWhile isSpace (rev ?u))"
    by (simp only: trim_def)
  then show ?thesis ..
qed

lemma single_spaced_trim: "single_spaced s \<Longrightarrow> single_spaced (trim s)"
proof -
  assume "single_spaced s"
  then have "single_spaced (dropWhile isSpace s)"
    by (rule single_spaced_dropWhile)
  moreover obtain t where "dropWhile isSpace s = trim s @ t"
    using trim_decomp by blast
  ultimately show ?thesis
    using single_spaced_append by metis
qed

lemma dropWhile_trim: "dropWhile isSpace (trim s) = trim s"
proof (cases "trim s")
  case Nil
  then show ?thesis by simp
next
  case (Cons c r)
  obtain t where "dropWhile isSpace s = trim s @ t"
    using trim_decomp by blast
  with Cons have "dropWhile isSpace s = c # (r @ t)" by simp
  then have "\<not> isSpace c"
    by (metis hd_dropWhile list.sel(1) list.distinct(1))
  with Cons show ?thesis by simp
qed

lemma trim_trim: "trim (trim s) = trim s"
proof -
  have "trim (trim s) = rev (dropWhile isSpace (rev (trim s)))"
    by (simp add: trim_def [of "trim s"] dropWhile_trim)
  also have "rev (trim s) = dropWhile isSpace (rev (dropWhile isSpace s))"
    by (simp add: trim_def)
  also have "rev (dropWhile isSpace (dropWhile isSpace (rev (dropWhile isSpace s)))) = trim s"
    by (simp add: trim_def dropWhile_idem)
  finally show ?thesis .
qed

lemma set_trim: "set (trim s) \<subseteq> set s"
proof -
  have "set (trim s) \<subseteq> set (dropWhile isSpace s)"
    unfolding trim_def set_rev using set_dropWhileD by fastforce
  also have "\<dots> \<subseteq> set s"
    using set_dropWhileD by fastforce
  finally show ?thesis .
qed

lemma replace_escape_no_backslash:
  "CHR 0x5C \<notin> set s \<Longrightarrow> replace_escape e s = s"
  by (induction e s rule: replace_escape.induct) auto

lemma allowed_space: "allowed (CHR '' '')"
  by (simp add: allowed_def isSpace_def)

lemma not_allowed_backslash: "\<not> allowed (CHR 0x5C)"
  by code_simp

lemma list_all_allowed_collapse_ws: "list_all allowed s \<Longrightarrow> list_all allowed (collapse_ws s)"
proof (induction s rule: collapse_ws.induct)
  case 1
  show ?case by simp
next
  case (2 c cs)
  have "list_all allowed (dropWhile isSpace cs)"
    using 2(3) set_dropWhileD by (fastforce simp: list_all_iff)
  with 2 show ?case
    by (simp add: allowed_space)
qed

lemma clean_extracted_allowed:
  assumes "list_all allowed s"
  shows "clean_extracted s = trim (collapse_ws s)"
proof -
  from assms have "CHR 0x5C \<notin> set s"
    using not_allowed_backslash by (auto simp: list_all_iff)
  then have e: "replace_escape CHR ''t'' (replace_escape CHR ''r'' (replace_escape CHR ''n'' s)) = s"
    by (simp add: replace_escape_no_backslash)
  have "list_all allowed (collapse_ws s)"
    using assms by (rule list_all_allowed_collapse_ws)
  then have "map (\<lambda>c. if allowed c then c else CHR '' '') (collapse_ws s) = collapse_ws s"
    by (simp add: list_all_iff map_idI)
  with e show ?thesis
    by (simp add: clean_extracted_def)
qed

lemma list_all_allowed_clean_extracted: "list_all allowed (clean_extracted s)"
proof -
  let ?m = "map (\<lambda>c. if allowed c then c else CHR '' '')
            (collapse_ws (replace_escape CHR ''t'' (replace_escape CHR ''r'' (replace_escape CHR ''n'' s))))"
  have "list_all allowed ?m"
    by (auto simp: list_all_iff allowed_space)
  moreover have "set (trim ?m) \<subseteq> set ?m"
    by (rule set_trim)
  ultimately show ?thesis
    unfolding clean_extracted_def list_all_iff by blast
qed

lemma clean_extracted_idem_allowed:
  assumes "list_all allowed s"
  shows "clean_extracted (clean_extracted s) = clean_extracted s"
proof -
  have c: "clean_extracted s = trim (collapse_ws s)"
    using assms by (rule clean_extracted_allowed)
  have "single_spaced (trim (collapse_ws s))"
    by (rule single_spaced_trim [OF single_spaced_collapse_ws])
  then have f: "collapse_ws (trim (collapse_ws s)) = trim (collapse_ws s)"
    by (rule collapse_ws_single_spaced)
  have "clean_extracted (clean_extracted s) = trim (collapse_ws (clean_extracted s))"
    by (rule clean_extracted_allowed [OF list_all_allowed_clean_extracted])
  also have "\<dots> = trim (trim (collapse_ws s))"
    by (simp add: c f)
  also have "\<dots> = clean_extracted s"
    by (simp add: trim_trim c)
  finally show ?thesis .
qed

subsection \<open>The text extractor\<close>

lemma ascii_fallback_ignores_last_byte:
  "ascii_fallback (buffer @ [b]) = foldl fallback_step [] buffer"
  by (simp add: ascii_fallback_def)

text \<open>
  Claim C7 on the code.  The loop of the ASCII fallback stops one byte before the end of the
  buffer: for the buffer \<open>AB\<close> the fallback text, which is also the extracted text, is
  \<open>A\<close>, although the last byte \<open>B\<close> is printable.
\<close>

theorem ascii_fallback_skips_last_byte:
  "ascii_fallback ''AB'' = ''A'' \<and> fst (extract_text ''AB'') = ''A''"
  by code_simp

lemma structured_methods_without_fallback:
  "''ascii_fallback'' \<notin> set (structured_methods buf)"
  by (simp add: structured_methods_def)

lemma stream_tag_iff: "''stream_extraction'' \<in> set (structured_methods buf) \<longleftrightarrow> streamMatches buf \<noteq> []"
  by (simp add: structured_methods_def)

lemma text_objects_tag_iff: "''text_objects'' \<in> set (structured_methods buf) \<longleftrightarrow> textObjects buf \<noteq> []"
  by (simp add: structured_methods_def)

lemma text_blocks_tag_iff: "''text_blocks'' \<in> set (structured_methods buf) \<longleftrightarrow> textBlocks buf \<noteq> []"
  by (simp add: structured_methods_def)

lemma contributing_subset_structured:
  "set (contributing_methods buf) \<subseteq> set (structured_methods buf)"
proof -
  have 1: "set (if foldl add_stream [] (streamMatches buf) \<noteq> [] then [''stream_extraction''] else [])
           \<subseteq> set (if streamMatches buf \<noteq> [] then [''stream_extraction''] else [])"
    by (cases "streamMatches buf") auto
  have 2: "set (if foldl add_text_object [] (textObjects buf) \<noteq> [] then [''text_objects''] else [])
           \<subseteq> set (if textObjects buf \<noteq> [] then [''text_objects''] else [])"
    by (cases "textObjects buf") auto
  have 3: "set (if foldl add_text_block [] (textBlocks buf) \<noteq> [] then [''text_blocks''] else [])
           \<subseteq> set (if textBlocks buf \<noteq> [] then [''text_blocks''] else [])"
    by (cases "textBlocks buf") auto
  show ?thesis
    unfolding contributing_methods_def structured_methods_def set_append
    by (rule Un_mono [OF 1 Un_mono [OF 2 3]])
qed

text \<open>
  Claim C2, as the code has it.  When methods 1 to 3 together give fewer than 100
  characters, the extracted text is the output of the ASCII fallback and the tag
  \<open>ascii_fallback\<close> is recorded.  Otherwise the extracted text is the text of methods 1 to
  3, \<open>ascii_fallback\<close> is not recorded, and the recorded tags are those of the methods whose
  pattern has a match in the buffer: every method that contributed text is among them, and
  so is a method with matches none of which was accepted.
\<close>

theorem extract_text_decision:
  "(length (structured_text buf) < 100 \<longrightarrow>
      fst (extract_text buf) = ascii_fallback buf \<and>
      ''ascii_fallback'' \<in> set (snd (extract_text buf))) \<and>
   (100 \<le> length (structured_text buf) \<longrightarrow>
      fst (extract_text buf) = structured_text buf \<and>
      ''ascii_fallback'' \<notin> set (snd (extract_text buf)) \<and>
      (''stream_extraction'' \<in> set (snd (extract_text buf)) \<longleftrightarrow> streamMatches buf \<noteq> []) \<and>
      (''text_objects'' \<in> set (snd (extract_text buf)) \<longleftrightarrow> textObjects buf \<noteq> []) \<and>
      (''text_blocks'' \<in> set (snd (extract_text buf)) \<longleftrightarrow> textBlocks buf \<noteq> []) \<and>
      set (snd (extract_text buf)) \<subseteq> {''stream_extraction'', ''text_objects'', ''text_blocks''} \<and>
      set (contributing_methods buf) \<subseteq> set (snd (extract_text buf)))"
proof (cases "length (structured_text buf) < 100")
  case True
  then show ?thesis by (simp add: extract_text_def Let_def)
next
  case False
  then have e: "extract_text buf = (structured_text buf, structured_methods buf)"
    by (simp add: extract_text_def Let_def)
  have "set (structured_methods buf) \<subseteq> {''stream_extraction'', ''text_objects'', ''text_blocks''}"
    by (auto simp: structured_methods_def split: if_splits)
  with False show ?thesis
    unfolding e fst_conv snd_conv
    using structured_methods_without_fallback [of buf] stream_tag_iff [of buf]
      text_objects_tag_iff [of buf] text_blocks_tag_iff [of buf]
      contributing_subset_structured [of buf]
    by blast
qed

theorem extract_text_decision_witness:
  "length (structured_text ''AB'') < 100 \<and>
   fst (extract_text ''AB'') = ascii_fallback ''AB'' \<and>
   ''ascii_fallback'' \<in> set (snd (extract_text ''AB'')) \<and>
   100 \<le> length (structured_text buf1) \<and>
   fst (extract_text buf1) = structured_text buf1 \<and>
   ''ascii_fallback'' \<notin> set (snd (extract_text buf1)) \<and>
   ''stream_extraction'' \<in> set (snd (extract_text buf1)) \<and>
   ''text_objects'' \<in> set (snd (extract_text buf1)) \<and>
   ''text_blocks'' \<notin> set (snd (extract_text buf1))"
proof -
  have a: "length (structured_text ''AB'') < 100"
    by code_simp
  have b: "100 \<le> length (structured_text buf1)"
    by code_simp
  have c: "streamMatches buf1 \<noteq> []" "textObjects buf1 \<noteq> []" "textBlocks buf1 = []"
    by code_simp+
  show ?thesis
    using a b c extract_text_decision [of "''AB''"] extract_text_decision [of buf1]
    by simp
qed

text \<open>
  Claim C2 as stated fails where it says that the recorded methods are exactly those that
  contributed text.  In the buffer \<open>buf1\<close> the stream holds one character, which is not
  accepted, and the text object holds 100 characters: the text is that of the text object
  alone, and \<open>stream_extraction\<close> is recorded all the same.
\<close>

theorem methods_record_contributors_counterexample:
  "100 \<le> length (structured_text buf1) \<and>
   snd (extract_text buf1) = [''stream_extraction'', ''text_objects''] \<and>
   contributing_methods buf1 = [''text_objects'']"
  by code_simp

subsection \<open>The final text\<close>

lemma length_truncation_marker: "length truncation_marker = 23"
  by (simp add: truncation_marker_def)

lemma length_placeholder: "length (placeholder file_id) = 178 + length file_id"
  by (simp add: placeholder_def)

lemma final_text_cases:
  "final_text file_id t =
     (if length t < 50 then placeholder file_id
      else if length t > 8000 then take 8000 t @ truncation_marker
      else t)"
  by (simp add: final_text_def truncate_text_def length_truncation_marker)

lemma length_final_text:
  "length (final_text file_id t) \<le> max (8000 + length truncation_marker) (length (placeholder file_id))"
  by (auto simp: final_text_cases length_truncation_marker)

lemma download_pdf_content:
  assumes "download_pdf file_id buffer = Inr r"
  shows "content r = final_text file_id (cleanedText_of buffer)"
proof -
  from assms have "buffer \<noteq> []"
    by (auto simp: download_pdf_def)
  with assms show ?thesis
    by (auto simp: download_pdf_def Let_def cleanedText_of_def final_text_def)
qed

text \<open>
  Claim C8, as the code has it.  The text of a response is the cleaned text cut to 8000
  characters with the marker appended when the cleaned text is longer than that, and the
  placeholder naming the file id when the cleaned text has fewer than 50 characters.  Its
  length is at most the larger of 8000 plus the length of the marker and the length of the
  placeholder, which is 178 plus the length of the file id; so it is at most 8000 plus the
  length of the marker for every file id of at most 7845 characters.
\<close>

theorem download_pdf_content_length:
  assumes "download_pdf file_id buffer = Inr r"
  shows "length (content r) \<le> max (8000 + length truncation_marker) (length (placeholder file_id)) \<and>
         (length file_id \<le> 7845 \<longrightarrow> length (content r) \<le> 8000 + length truncation_marker) \<and>
         (length (cleanedText_of buffer) > 8000 \<longrightarrow>
            content r = take 8000 (cleanedText_of buffer) @ truncation_marker) \<and>
         (length (cleanedText_of buffer) < 50 \<longrightarrow> content r = placeholder file_id)"
proof -
  have c: "content r = final_text file_id (cleanedText_of buffer)"
    using assms by (rule download_pdf_content)
  have 1: "length (content r) \<le> max (8000 + length truncation_marker) (length (placeholder file_id))"
    unfolding c by (rule length_final_text)
  have 2: "length (content r) \<le> 8000 + length truncation_marker" if "length file_id \<le> 7845"
    using 1 that by (simp add: length_placeholder length_truncation_marker)
  have 3: "content r = take 8000 (cleanedText_of buffer) @ truncation_marker"
    if "length (cleanedText_of buffer) > 8000"
    using that by (simp add: c final_text_cases)
  have 4: "content r = placeholder file_id" if "length (cleanedText_of buffer) < 50"
    using that by (simp add: c final_text_cases)
  from 1 2 3 4 show ?thesis by blast
qed

theorem download_pdf_content_length_witness:
  "download_pdf ''FILE'' ''AB'' = Inr response_AB \<and>
   length ''FILE'' \<le> 7845 \<and>
   length (cleanedText_of ''AB'') < 50 \<and>
   content response_AB = placeholder ''FILE'' \<and>
   length (content response_AB) \<le> 8000 + length truncation_marker"
proof -
  have a: "download_pdf ''FILE'' ''AB'' = Inr response_AB"
    by code_simp
  have b: "length (cleanedText_of ''AB'') < 50"
    by code_simp
  show ?thesis
    using a b download_pdf_content_length [OF a]
    by (simp add: length_placeholder length_truncation_marker)
qed

text \<open>
  Claim C8 as stated fails for a long file id: the placeholder contains the file id, so for
  a file id of 8000 characters and a buffer without text the response has 8178 characters,
  more than 8000 plus the 23 characters of the marker.
\<close>

theorem content_length_bound_counterexample:
  "content_length (download_pdf (replicate 8000 CHR ''a'') ''AB'') = 8178 \<and>
   8000 + length truncation_marker = 8023"
proof -
  obtain r where r: "download_pdf (replicate 8000 CHR ''a'') ''AB'' = Inr r"
    by (simp add: download_pdf_def Let_def)
  have "length (cleanedText_of ''AB'') < 50"
    by code_simp
  then have "content r = placeholder (replicate 8000 CHR ''a'')"
    using download_pdf_content [OF r] by (simp add: final_text_cases)
  then show ?thesis
    by (simp add: r length_placeholder length_truncation_marker)
qed

subsection \<open>Sectioning\<close>

lemma match_all_re_chunk:
  "list_ex (\<lambda>c. isLineTerminator c = False) s \<Longrightarrow> match_all re_chunk s \<noteq> []"
proof (induction s)
  case Nil
  then show ?case by simp
next
  case (Cons c cs)
  show ?case
  proof (cases "isLineTerminator c")
    case True
    then have "re_chunk (c # cs) = None"
      by (simp add: re_chunk_def)
    with True Cons show ?thesis by simp
  next
    case False
    then have "takeWhile (\<lambda>c. isLineTerminator c = False) (take 1000 (c # cs)) \<noteq> []"
      by (simp add: take_Cons')
    then obtain k where "re_chunk (c # cs) = Some k"
      by (simp add: re_chunk_def Let_def)
    then show ?thesis by simp
  qed
qed

lemma chunk_fallback_nonempty:
  assumes "list_ex (\<lambda>c. isLineTerminator c = False) text"
  shows "extractRelevantSections text \<noteq> []"
proof (cases "structured_sections text = []")
  case True
  from assms have "match_all re_chunk text \<noteq> []"
    by (rule match_all_re_chunk)
  then have "take 5 (match_all re_chunk text) \<noteq> []"
    by (cases "match_all re_chunk text") simp_all
  then have "chunk_sections (take 5 (match_all re_chunk text)) \<noteq> []"
    by (simp add: chunk_sections_def enumerate_eq_zip)
  with True show ?thesis
    by (simp add: extractRelevantSections_def)
next
  case False
  then show ?thesis
    by (simp add: extractRelevantSections_def Let_def)
qed

lemma trim_nonempty_has_nonspace:
  assumes "trim s \<noteq> []"
  shows "list_ex (\<lambda>c. isSpace c = False) (trim s)"
proof -
  obtain t where t: "dropWhile isSpace s = trim s @ t"
    using trim_decomp by blast
  from assms obtain c r where cr: "trim s = c # r"
    by (cases "trim s") auto
  with t have "dropWhile isSpace s = c # (r @ t)" by simp
  then have "\<not> isSpace c"
    by (metis hd_dropWhile list.sel(1) list.distinct(1))
  with cr show ?thesis by simp
qed

lemma preprocessed_sections_nonempty:
  assumes "preprocessTextForSearch s \<noteq> []"
  shows "extractRelevantSections (preprocessTextForSearch s) \<noteq> []"
proof -
  let ?u = "collapse_ws2 (space_punct (space_letter_digit (space_digit_letter False
       (space_camel (collapse_ws s)))))"
  have p: "preprocessTextForSearch s = trim ?u"
    by (simp add: preprocessTextForSearch_def)
  with assms have "list_ex (\<lambda>c. isSpace c = False) (trim ?u)"
    using trim_nonempty_has_nonspace by simp
  moreover have "isSpace c = False \<Longrightarrow> isLineTerminator c = False" for c
    by (auto simp: isSpace_def isLineTerminator_def)
  ultimately have "list_ex (\<lambda>c. isLineTerminator c = False) (trim ?u)"
    by (auto simp: list_ex_iff)
  then show ?thesis
    unfolding p by (rule chunk_fallback_nonempty)
qed

lemma trim_Nil_iff: "trim s = [] \<longleftrightarrow> list_all isSpace s"
proof
  assume "trim s = []"
  then have "dropWhile isSpace (rev (dropWhile isSpace s)) = []"
    by (simp add: trim_def)
  then have "\<forall>c \<in> set (dropWhile isSpace s). isSpace c"
    by (simp add: dropWhile_eq_Nil_conv)
  then have "dropWhile isSpace s = []"
    by (metis hd_dropWhile list.set_sel(1))
  then show "list_all isSpace s"
    by (simp add: dropWhile_eq_Nil_conv list_all_iff)
next
  assume "list_all isSpace s"
  then have "\<forall>c \<in> set s. isSpace c"
    by (simp add: list_all_iff)
  then have "dropWhile isSpace s = []"
    by (simp only: dropWhile_eq_Nil_conv)
  then show "trim s = []"
    unfolding trim_def by (simp only: rev.simps dropWhile.simps)
qed

lemma section_step_current:
  "\<exists>x. fst (section_step st sentence) = x @ sentence @ '' ''"
proof (cases st)
  case (Pair cur secs)
  show ?thesis
  proof (cases "length cur + length sentence > 800")
    case True
    then have "fst (section_step st sentence) = [] @ sentence @ '' ''"
      by (simp add: section_step_def Pair)
    then show ?thesis by blast
  next
    case False
    then have "fst (section_step st sentence) = cur @ sentence @ '' ''"
      by (simp add: section_step_def Pair)
    then show ?thesis by blast
  qed
qed

lemma foldl_section_step_current:
  assumes "sentences \<noteq> []"
  shows "\<exists>x. fst (foldl section_step st sentences) = x @ last sentences @ '' ''"
proof -
  from assms obtain ss s where s: "sentences = ss @ [s]"
    by (metis append_butlast_last_id)
  then have "foldl section_step st sentences = section_step (foldl section_step st ss) s"
    by simp
  then show ?thesis
    using section_step_current [of "foldl section_step st ss" s] s by simp
qed

lemma sentences_of_end:
  assumes "s \<in> set (sentences_of extracted)"
  shows "\<exists>t. s = t @ ''.''"
  using assms by (auto simp: sentences_of_def)

lemma sections_of_nonempty:
  "sections_of (join '' '' (sentences_of extracted)) (sentences_of extracted) \<noteq> []"
proof (cases "length (join '' '' (sentences_of extracted)) > 500")
  case False
  then show ?thesis by (simp add: sections_of_def)
next
  case True
  let ?ss = "sentences_of extracted"
  from True have ne: "?ss \<noteq> []"
    by (cases ?ss) auto
  then obtain x where x: "fst (foldl section_step ([], []) ?ss) = x @ last ?ss @ '' ''"
    using foldl_section_step_current by blast
  obtain t where t: "last ?ss = t @ ''.''"
    using sentences_of_end [of "last ?ss" extracted] ne by auto
  have "\<not> isSpace CHR ''.''"
    by (simp add: isSpace_def)
  then have "\<not> list_all isSpace (x @ last ?ss @ '' '')"
    unfolding t by simp
  then have nt: "trim (fst (foldl section_step ([], []) ?ss)) \<noteq> []"
    unfolding x by (simp add: trim_Nil_iff)
  obtain cur secs where f: "foldl section_step ([], []) ?ss = (cur, secs)"
    by (cases "foldl section_step ([], []) ?ss")
  with nt True show ?thesis
    by (simp add: sections_of_def)
qed

lemma download_pdf_sections_nonempty:
  assumes "download_pdf file_id buffer = Inr r"
  shows "response_sections r \<noteq> []"
proof -
  let ?e = "clean_extracted (fst (extract_text buffer))"
  let ?secs = "sections_of (join '' '' (sentences_of ?e)) (sentences_of ?e)"
  have ne: "?secs \<noteq> []" by (rule sections_of_nonempty)
  let ?secs' = "if length (truncate_text (join '' '' (sentences_of ?e))) < 50
               then ?secs @ [final_text file_id (join '' '' (sentences_of ?e))] else ?secs"
  from ne have "?secs' \<noteq> []" by simp
  then have t: "take 5 ?secs' \<noteq> []"
    by (cases ?secs') simp_all
  from assms have "buffer \<noteq> []"
    by (auto simp: download_pdf_def)
  with assms have "response_sections r = take 5 ?secs'"
    by (auto simp: download_pdf_def Let_def)
  with t show ?thesis by simp
qed

text \<open>
  Claim C9.  \<open>extractRelevantSections\<close> is a private method whose text comes from
  \<open>processPDFContent\<close>, which passes the output of \<open>preprocessTextForSearch\<close>: for every
  such text that is not empty, the header split, the paragraph split and the chunks of 1000
  characters together give at least one section.  The section splitting of the edge function
  gives at least one section for every buffer it answers.
\<close>

theorem sectioning_nonempty:
  "(preprocessTextForSearch s \<noteq> [] \<longrightarrow>
      extractRelevantSections (preprocessTextForSearch s) \<noteq> []) \<and>
   (download_pdf file_id buffer = Inr r \<longrightarrow> response_sections r \<noteq> [])"
  using preprocessed_sections_nonempty [of s]
    download_pdf_sections_nonempty [of file_id buffer r]
  by blast

theorem sectioning_nonempty_witness:
  "preprocessTextForSearch ''a1b'' = ''a 1b'' \<and>
   extractRelevantSections (preprocessTextForSearch ''a1b'') \<noteq> [] \<and>
   download_pdf ''FILE'' ''AB'' = Inr response_AB \<and>
   response_sections response_AB \<noteq> []"
proof -
  have b: "preprocessTextForSearch ''a1b'' = ''a 1b''"
    by code_simp
  have c: "download_pdf ''FILE'' ''AB'' = Inr response_AB"
    by code_simp
  show ?thesis
    using b c sectioning_nonempty [of "''a1b''" "''FILE''" "''AB''" response_AB]
    by simp
qed

subsection \<open>Repeated normalization\<close>

lemma set_space_camel: "set (space_camel s) \<subseteq> insert (CHR '' '') (set s)"
  by (induction s rule: space_camel.induct) auto

lemma set_space_digit_letter: "set (space_digit_letter pw s) \<subseteq> insert (CHR '' '') (set s)"
proof (induction pw s rule: space_digit_letter.induct)
  case (1 pw)
  show ?case by simp
next
  case (2 pw c cs)
  show ?case
  proof (cases "dropWhile isDigit (c # cs)")
    case Nil
    with 2(1) show ?thesis by auto
  next
    case (Cons l r)
    have r: "set (l # r) \<subseteq> set (c # cs)"
      using set_dropWhileD [of _ isDigit "c # cs"] unfolding Cons [symmetric] by blast
    have t: "set (takeWhile isDigit (c # cs)) \<subseteq> set (c # cs)"
      using set_takeWhileD [of _ isDigit "c # cs"] by blast
    show ?thesis
    proof (cases "isDigit c \<and> isLetter l \<and> pw = False")
      case True
      with Cons 2(2) [OF Cons] have "set (space_digit_letter True r) \<subseteq> insert (CHR '' '') (set r)"
        by simp
      with True Cons r t show ?thesis
        by (simp del: takeWhile.simps dropWhile.simps) blast
    next
      case False
      with Cons 2(3) [OF Cons] have "set (space_digit_letter (isWord c) cs) \<subseteq> insert (CHR '' '') (set cs)"
        by simp
      with False Cons show ?thesis
        by (simp del: takeWhile.simps dropWhile.simps) blast
    qed
  qed
qed

lemma set_dropWhile_subset: "set (dropWhile P xs) \<subseteq> set xs"
  using set_dropWhileD by fastforce

lemma set_takeWhile_subset: "set (takeWhile P xs) \<subseteq> set xs"
  using set_takeWhileD by fastforce

lemma set_space_letter_digit: "set (space_letter_digit s) \<subseteq> insert (CHR '' '') (set s)"
proof (induction s rule: space_letter_digit.induct)
  case 1
  show ?case by simp
next
  case (2 c cs)
  show ?case
  proof (cases "isLetter c \<and> takeWhile isDigit cs \<noteq> []")
    case True
    with 2(1) have "set (space_letter_digit (dropWhile isDigit cs)) \<subseteq> insert (CHR '' '') (set cs)"
      using set_dropWhile_subset [of isDigit cs] by blast
    with True show ?thesis
      using set_takeWhile_subset [of isDigit cs] by auto
  next
    case False
    with 2(2) show ?thesis by auto
  qed
qed

lemma set_space_punct: "set (space_punct s) \<subseteq> insert (CHR '' '') (set s)"
proof (induction s rule: space_punct.induct)
  case 1
  show ?case by simp
next
  case (2 c cs)
  show ?case
  proof (cases "dropWhile isSpace (c # cs)")
    case Nil
    with 2(1) show ?thesis by auto
  next
    case (Cons p r)
    have pr: "set (p # r) \<subseteq> set (c # cs)"
      unfolding Cons [symmetric] by (rule set_dropWhile_subset)
    show ?thesis
    proof (cases "isPunct p")
      case True
      with Cons 2(2) [OF Cons] have "set (space_punct (dropWhile isSpace r)) \<subseteq> insert (CHR '' '') (set r)"
        using set_dropWhile_subset [of isSpace r] by blast
      with True Cons pr show ?thesis
        by (simp del: dropWhile.simps) blast
    next
      case False
      with Cons 2(3) [OF Cons] have "set (space_punct cs) \<subseteq> insert (CHR '' '') (set cs)"
        by simp
      with False Cons show ?thesis
        by (simp del: dropWhile.simps) blast
    qed
  qed
qed

lemma set_collapse_ws2: "set (collapse_ws2 s) \<subseteq> insert (CHR '' '') (set s)"
proof (induction s rule: collapse_ws2.induct)
  case 1
  show ?case by simp
next
  case (2 c cs)
  show ?case
  proof (cases "isSpace c \<and> takeWhile isSpace cs \<noteq> []")
    case True
    with 2(1) have "set (collapse_ws2 (dropWhile isSpace cs)) \<subseteq> insert (CHR '' '') (set cs)"
      using set_dropWhile_subset [of isSpace cs] by blast
    with True show ?thesis by auto
  next
    case False
    with 2(2) show ?thesis by auto
  qed
qed

lemma set_collapse_ws: "set (collapse_ws s) \<subseteq> insert (CHR '' '') (set s)"
proof (induction s rule: collapse_ws.induct)
  case 1
  show ?case by simp
next
  case (2 c cs)
  show ?case
  proof (cases "isSpace c")
    case True
    with 2(1) have "set (collapse_ws (dropWhile isSpace cs)) \<subseteq> insert (CHR '' '') (set cs)"
      using set_dropWhile_subset [of isSpace cs] by blast
    with True show ?thesis by auto
  next
    case False
    with 2(2) show ?thesis by auto
  qed
qed

lemma only_spaces_collapse_ws: "only_spaces (collapse_ws s)"
  by (induction s rule: collapse_ws.induct) (simp_all add: only_spaces_def)

lemma only_spaces_subset:
  "only_spaces s \<Longrightarrow> set t \<subseteq> insert (CHR '' '') (set s) \<Longrightarrow> only_spaces t"
  by (auto simp: only_spaces_def list_all_iff)

lemma list_all_allowed_subset:
  "list_all allowed s \<Longrightarrow> set t \<subseteq> insert (CHR '' '') (set s) \<Longrightarrow> list_all allowed t"
  using allowed_space by (auto simp: list_all_iff)

lemma single_spaced_collapse_ws2: "only_spaces s \<Longrightarrow> single_spaced (collapse_ws2 s)"
proof (induction s rule: collapse_ws2.induct)
  case 1
  show ?case by simp
next
  case (2 c cs)
  from 2(3) have cs: "only_spaces cs" and c: "isSpace c \<longrightarrow> c = CHR '' ''"
    by (simp_all add: only_spaces_def)
  show ?case
  proof (cases "isSpace c \<and> takeWhile isSpace cs \<noteq> []")
    case True
    let ?r = "dropWhile isSpace cs"
    have "only_spaces ?r"
      using cs set_dropWhile_subset [of isSpace cs] by (auto simp: only_spaces_def list_all_iff)
    with True 2(1) have ih: "single_spaced (collapse_ws2 ?r)" by simp
    have "collapse_ws2 ?r = [] \<or> \<not> isSpace (hd (collapse_ws2 ?r))"
    proof (cases ?r)
      case Nil
      then have "collapse_ws2 ?r = []"
        by (simp only: collapse_ws2.simps)
      then show ?thesis by (rule disjI1)
    next
      case (Cons d r')
      then have d: "\<not> isSpace d"
        by (metis hd_dropWhile list.sel(1) list.distinct(1))
      then have "collapse_ws2 (d # r') = d # collapse_ws2 r'" by simp
      with Cons d show ?thesis by simp
    qed
    with True ih show ?thesis
      by (simp add: single_spaced_Cons)
  next
    case False
    with 2(2) cs have ih: "single_spaced (collapse_ws2 cs)" by simp
    show ?thesis
    proof (cases "isSpace c")
      case sp: True
      with False have "takeWhile isSpace cs = []" by simp
      then have h: "cs = [] \<or> \<not> isSpace (hd cs)"
        by (cases cs) (auto split: if_splits)
      then have "collapse_ws2 cs = [] \<or> \<not> isSpace (hd (collapse_ws2 cs))"
      proof
        assume "cs = []" then show ?thesis by simp
      next
        assume n: "\<not> isSpace (hd cs)"
        show ?thesis
        proof (cases cs)
          case Nil then show ?thesis by simp
        next
          case (Cons d r')
          with n show ?thesis by simp
        qed
      qed
      with sp False c ih show ?thesis
        by (simp add: single_spaced_Cons)
    next
      case nsp: False
      with ih show ?thesis
        by (simp add: single_spaced_Cons)
    qed
  qed
qed

lemma clean_extracted_fixpoint:
  assumes "list_all allowed y" and "single_spaced y"
  shows "clean_extracted (trim y) = trim y"
proof -
  have a: "list_all allowed (trim y)"
    using assms(1) set_trim [of y] by (auto simp: list_all_iff)
  have "clean_extracted (trim y) = trim (collapse_ws (trim y))"
    using a by (rule clean_extracted_allowed)
  also have "collapse_ws (trim y) = trim y"
    by (rule collapse_ws_single_spaced [OF single_spaced_trim [OF assms(2)]])
  finally show ?thesis
    by (simp add: trim_trim)
qed

lemma clean_extracted_preprocessed:
  assumes "list_all allowed s"
  shows "clean_extracted (preprocessTextForSearch s) = preprocessTextForSearch s"
proof -
  let ?a = "collapse_ws s"
  let ?b = "space_camel ?a"
  let ?c = "space_digit_letter False ?b"
  let ?d = "space_letter_digit ?c"
  let ?e = "space_punct ?d"
  let ?f = "collapse_ws2 ?e"
  have a: "list_all allowed ?a" "only_spaces ?a"
    using assms by (simp_all add: list_all_allowed_collapse_ws only_spaces_collapse_ws)
  have b: "list_all allowed ?b" "only_spaces ?b"
    using a set_space_camel [of ?a] by (blast intro: list_all_allowed_subset only_spaces_subset)+
  have c: "list_all allowed ?c" "only_spaces ?c"
    using b set_space_digit_letter [of False ?b]
    by (blast intro: list_all_allowed_subset only_spaces_subset)+
  have d: "list_all allowed ?d" "only_spaces ?d"
    using c set_space_letter_digit [of ?c]
    by (blast intro: list_all_allowed_subset only_spaces_subset)+
  have e: "list_all allowed ?e" "only_spaces ?e"
    using d set_space_punct [of ?d]
    by (blast intro: list_all_allowed_subset only_spaces_subset)+
  have f: "list_all allowed ?f"
    using e set_collapse_ws2 [of ?e] by (blast intro: list_all_allowed_subset)
  have "single_spaced ?f"
    using e(2) by (rule single_spaced_collapse_ws2)
  with f show ?thesis
    unfolding preprocessTextForSearch_def by (rule clean_extracted_fixpoint)
qed

lemma clean_extracted_normalize: "clean_extracted (normalize s) = normalize s"
  unfolding normalize_def
  by (rule clean_extracted_preprocessed [OF list_all_allowed_clean_extracted])

lemma isWord_not_isSpace: "isWord c \<Longrightarrow> \<not> isSpace c"
  by (auto simp: isSpace_def isWord_def isLetter_def isLower_def isUpper_def isDigit_def less_eq_char_def)

lemma isWord_not_isPunct: "isWord c \<Longrightarrow> \<not> isPunct c"
  by (auto simp: isPunct_def isWord_def isLetter_def isLower_def isUpper_def isDigit_def less_eq_char_def)

lemma isPunct_not_isSpace: "isPunct c \<Longrightarrow> \<not> isSpace c"
  by (auto simp: isPunct_def isSpace_def)

lemma space_not_isPunct: "\<not> isPunct (CHR '' '')"
  by (simp add: isPunct_def)

lemma isLetter_isWord: "isLetter c \<Longrightarrow> isWord c"
  by (simp add: isWord_def)

lemma isDigit_isWord: "isDigit c \<Longrightarrow> isWord c"
  by (simp add: isWord_def)

lemma isDigit_not_isLetter: "isDigit c \<Longrightarrow> \<not> isLetter c"
  by (auto simp: isLetter_def isLower_def isUpper_def isDigit_def less_eq_char_def)

lemma isLower_not_isUpper: "isLower c \<Longrightarrow> \<not> isUpper c"
  by (auto simp: isLower_def isUpper_def less_eq_char_def)

lemma spaced_refl: "spaced xs xs"
  by (induction xs) (auto intro: spaced.intros)

lemma spaced_Nil_iff: "spaced xs ys \<Longrightarrow> (ys = [] \<longleftrightarrow> xs = [])"
  by (induction rule: spaced.induct) auto

lemma spaced_hd: "spaced xs ys \<Longrightarrow> hd ys = hd xs"
  by (induction rule: spaced.induct) auto

lemma spaced_last: "spaced xs ys \<Longrightarrow> last ys = last xs"
  by (induction rule: spaced.induct) (auto dest: spaced_Nil_iff)

lemma spaced_set: "spaced xs ys \<Longrightarrow> set ys \<subseteq> insert (CHR '' '') (set xs)"
  by (induction rule: spaced.induct) auto

lemma spaced_single_spaced: "spaced xs ys \<Longrightarrow> single_spaced xs \<Longrightarrow> single_spaced ys"
proof (induction rule: spaced.induct)
  case spaced_Nil
  then show ?case by simp
next
  case (spaced_Keep xs ys c)
  then show ?case
    using spaced_hd [OF spaced_Keep(1)] spaced_Nil_iff [OF spaced_Keep(1)]
    by (auto simp: single_spaced_Cons)
next
  case (spaced_Ins b xs ys a)
  then show ?case
    using spaced_hd [OF spaced_Ins(1)] spaced_Nil_iff [OF spaced_Ins(1)]
    by (auto simp: single_spaced_Cons isWord_not_isSpace)
qed

lemma spaced_successively:
  assumes "spaced xs ys" and "successively Q xs"
    and "\<And>a b. isSpace a \<or> isSpace b \<Longrightarrow> Q a b"
  shows "successively Q ys"
  using assms(1,2)
proof (induction rule: spaced.induct)
  case spaced_Nil
  then show ?case by simp
next
  case (spaced_Keep xs ys c)
  then show ?case
    using spaced_hd [OF spaced_Keep(1)] spaced_Nil_iff [OF spaced_Keep(1)]
    by (auto simp: successively_Cons)
next
  case (spaced_Ins b xs ys a)
  then show ?case
    using spaced_hd [OF spaced_Ins(1)] spaced_Nil_iff [OF spaced_Ins(1)] assms(3) space_isSpace
    by (auto simp: successively_Cons)
qed

lemma punct_normal_nonspace:
  "\<not> isSpace c \<Longrightarrow> punct_normal f (c # cs) = punct_normal g (c # cs)"
  by simp

lemma spaced_punct_normal: "spaced xs ys \<Longrightarrow> punct_normal f xs \<Longrightarrow> punct_normal f ys"
proof (induction arbitrary: f rule: spaced.induct)
  case spaced_Nil
  then show ?case by simp
next
  case (spaced_Keep xs ys c)
  then show ?case
    using spaced_hd [OF spaced_Keep(1)] spaced_Nil_iff [OF spaced_Keep(1)]
    by (auto split: if_splits)
next
  case (spaced_Ins b xs ys a)
  have a: "\<not> isPunct a" "\<not> isSpace a" and b: "\<not> isPunct b" "\<not> isSpace b"
    using spaced_Ins by (simp_all add: isWord_not_isPunct isWord_not_isSpace)
  from spaced_Ins(5) a have "punct_normal False (b # xs)" by simp
  then have "punct_normal False ys" by (rule spaced_Ins(4))
  moreover have "hd ys = b" "ys \<noteq> []"
    using spaced_hd [OF spaced_Ins(1)] spaced_Nil_iff [OF spaced_Ins(1)] by simp_all
  ultimately show ?case
    using a b by (simp add: space_isSpace space_not_isPunct)
qed

lemma isLower_isWord: "isLower c \<Longrightarrow> isWord c"
  by (simp add: isWord_def isLetter_def)

lemma isUpper_isWord: "isUpper c \<Longrightarrow> isWord c"
  by (simp add: isWord_def isLetter_def)

lemma spaced_space_camel: "spaced s (space_camel s)"
proof (induction s rule: space_camel.induct)
  case (1 a b r)
  show ?case
  proof (cases "isLower a \<and> isUpper b")
    case True
    with 1(1) have "spaced (b # r) (b # space_camel r)"
      by (simp add: spaced_Keep)
    with True show ?thesis
      by (simp add: spaced_Ins isLower_isWord isUpper_isWord)
  next
    case False
    with 1(2) show ?thesis
      by (auto intro: spaced_Keep)
  qed
qed (simp_all add: spaced_refl)

lemma spaced_trans_Cons: "spaced xs ys \<Longrightarrow> spaced (c # xs) (c # ys)"
  by (rule spaced_Keep)

lemma spaced_append_same: "spaced xs ys \<Longrightarrow> spaced (ds @ xs) (ds @ ys)"
  by (induction ds) (auto intro: spaced_Keep)

lemma spaced_space_letter_digit: "spaced s (space_letter_digit s)"
proof (induction s rule: space_letter_digit.induct)
  case 1
  show ?case by (simp add: spaced_Nil)
next
  case (2 c cs)
  show ?case
  proof (cases "isLetter c \<and> takeWhile isDigit cs \<noteq> []")
    case True
    then obtain d ds where d: "takeWhile isDigit cs = d # ds"
      by (cases "takeWhile isDigit cs") auto
    then have "isDigit d"
      by (metis list.set_intros(1) set_takeWhileD)
    from True 2(1) have "spaced (dropWhile isDigit cs) (space_letter_digit (dropWhile isDigit cs))"
      by simp
    then have "spaced (takeWhile isDigit cs @ dropWhile isDigit cs)
                 (takeWhile isDigit cs @ space_letter_digit (dropWhile isDigit cs))"
      by (rule spaced_append_same)
    then have "spaced (d # ds @ dropWhile isDigit cs)
                 (d # ds @ space_letter_digit (dropWhile isDigit cs))"
      by (simp add: d)
    then have "spaced (c # d # ds @ dropWhile isDigit cs)
                 (c # CHR '' '' # d # ds @ space_letter_digit (dropWhile isDigit cs))"
      using True \<open>isDigit d\<close> by (simp add: spaced_Ins isLetter_isWord isDigit_isWord)
    moreover have "cs = d # ds @ dropWhile isDigit cs"
      using takeWhile_dropWhile_id [of isDigit cs] d by simp
    ultimately show ?thesis
      using True d by (simp del: takeWhile.simps dropWhile.simps)
  next
    case False
    with 2(2) show ?thesis
      by (auto intro: spaced_Keep)
  qed
qed

lemma space_digit_letter_end:
  assumes "dropWhile isDigit (c # cs) = []"
  shows "space_digit_letter pw (c # cs) = c # space_digit_letter (isWord c) cs"
  unfolding space_digit_letter.simps assms by simp

lemma space_digit_letter_match:
  assumes "dropWhile isDigit (c # cs) = l # r" and "isDigit c" and "isLetter l" and "pw = False"
  shows "space_digit_letter pw (c # cs) =
           takeWhile isDigit (c # cs) @ CHR '' '' # l # space_digit_letter True r"
  unfolding space_digit_letter.simps assms(1) using assms(2-) by simp

lemma space_digit_letter_skip:
  assumes "dropWhile isDigit (c # cs) = l # r" and "\<not> (isDigit c \<and> isLetter l \<and> pw = False)"
  shows "space_digit_letter pw (c # cs) = c # space_digit_letter (isWord c) cs"
  unfolding space_digit_letter.simps assms(1) by (simp only: assms(2) list.case if_False)

lemma spaced_space_digit_letter: "spaced s (space_digit_letter pw s)"
proof (induction pw s rule: space_digit_letter.induct)
  case (1 pw)
  show ?case by (simp add: spaced_Nil)
next
  case (2 pw c cs)
  show ?case
  proof (cases "dropWhile isDigit (c # cs)")
    case Nil
    with 2(1) show ?thesis
      by (simp only: space_digit_letter_end [OF Nil] spaced_Keep)
  next
    case (Cons l r)
    show ?thesis
    proof (cases "isDigit c \<and> isLetter l \<and> pw = False")
      case True
      let ?ds = "takeWhile isDigit (c # cs)"
      have ds: "?ds \<noteq> []" using True by simp
      have id: "c # cs = ?ds @ l # r"
        using takeWhile_dropWhile_id [of isDigit "c # cs"] Cons by simp
      have "isDigit (last ?ds)"
        using ds by (metis last_in_set set_takeWhileD)
      from True 2(2) [OF Cons] have "spaced r (space_digit_letter True r)"
        by simp
      then have "spaced (l # r) (l # space_digit_letter True r)"
        by (rule spaced_Keep)
      then have "spaced (last ?ds # l # r) (last ?ds # CHR '' '' # l # space_digit_letter True r)"
        using True \<open>isDigit (last ?ds)\<close>
        by (simp add: spaced_Ins isLetter_isWord isDigit_isWord)
      then have "spaced (butlast ?ds @ last ?ds # l # r)
                   (butlast ?ds @ last ?ds # CHR '' '' # l # space_digit_letter True r)"
        by (rule spaced_append_same)
      then have "spaced (?ds @ l # r) (?ds @ CHR '' '' # l # space_digit_letter True r)"
        using ds append_butlast_last_id [of ?ds] by (metis append.assoc append_Cons append_Nil)
      then have "spaced (c # cs) (?ds @ CHR '' '' # l # space_digit_letter True r)"
        by (simp only: id [symmetric])
      moreover have "space_digit_letter pw (c # cs) = ?ds @ CHR '' '' # l # space_digit_letter True r"
        using True by (intro space_digit_letter_match [OF Cons]) simp_all
      ultimately show ?thesis
        by (simp only:)
    next
      case False
      have "space_digit_letter pw (c # cs) = c # space_digit_letter (isWord c) cs"
        by (rule space_digit_letter_skip [OF Cons False])
      moreover have "spaced cs (space_digit_letter (isWord c) cs)"
        using 2(3) [OF Cons] False by blast
      ultimately show ?thesis
        by (simp only: spaced_Keep)
    qed
  qed
qed

subsection \<open>space_camel and space_letter_digit: what they leave\<close>

lemma space_not_isWord: "\<not> isWord (CHR '' '')"
  using isWord_not_isSpace space_isSpace by blast

lemma space_not_isLower: "\<not> isLower (CHR '' '')"
  using isLower_isWord space_not_isWord by blast

lemma space_not_isUpper: "\<not> isUpper (CHR '' '')"
  using isUpper_isWord space_not_isWord by blast

lemma space_not_isLetter: "\<not> isLetter (CHR '' '')"
  using isLetter_isWord space_not_isWord by blast

lemma space_not_isDigit: "\<not> isDigit (CHR '' '')"
  using isDigit_isWord space_not_isWord by blast

lemma successively_all:
  "(\<And>a b. a \<in> set xs \<Longrightarrow> Q a b) \<Longrightarrow> successively Q xs"
  by (induction xs) (auto simp: successively_Cons)

lemma camel_free_space_camel:
  "successively (\<lambda>a b. \<not> (isLower a \<and> isUpper b)) (space_camel s)"
proof (induction s rule: space_camel.induct)
  case (1 a b r)
  show ?case
  proof (cases "isLower a \<and> isUpper b")
    case True
    have "hd (space_camel r) = hd r" "space_camel r = [] \<longleftrightarrow> r = []"
      using spaced_hd [OF spaced_space_camel] spaced_Nil_iff [OF spaced_space_camel] by simp_all
    with True 1(1) show ?thesis
      by (auto simp: successively_Cons space_not_isLower space_not_isUpper isLower_not_isUpper)
  next
    case False
    have "hd (space_camel (b # r)) = b" "space_camel (b # r) \<noteq> []"
      using spaced_hd [OF spaced_space_camel, of "b # r"]
        spaced_Nil_iff [OF spaced_space_camel, of "b # r"] by simp_all
    moreover have "space_camel (a # b # r) = a # space_camel (b # r)"
      using False by (simp only: space_camel.simps if_False)
    ultimately show ?thesis
      using False 1(2) by (simp add: successively_Cons del: space_camel.simps)
  qed
qed simp_all

lemma space_camel_fixpoint:
  "successively (\<lambda>a b. \<not> (isLower a \<and> isUpper b)) s \<Longrightarrow> space_camel s = s"
  by (induction s rule: space_camel.induct) auto

lemma letter_digit_free_space_letter_digit:
  "successively (\<lambda>a b. \<not> (isLetter a \<and> isDigit b)) (space_letter_digit s)"
proof (induction s rule: space_letter_digit.induct)
  case 1
  show ?case by simp
next
  case (2 c cs)
  show ?case
  proof (cases "isLetter c \<and> takeWhile isDigit cs \<noteq> []")
    case True
    let ?ds = "takeWhile isDigit cs" and ?r = "dropWhile isDigit cs"
    have ih: "successively (\<lambda>a b. \<not> (isLetter a \<and> isDigit b)) (space_letter_digit ?r)"
      using True 2(1) by simp
    have ds: "successively (\<lambda>a b. \<not> (isLetter a \<and> isDigit b)) ?ds"
      by (rule successively_all) (auto dest: set_takeWhileD simp: isDigit_not_isLetter)
    have last: "isDigit (last ?ds)"
      using True by (metis last_in_set set_takeWhileD)
    have "successively (\<lambda>a b. \<not> (isLetter a \<and> isDigit b)) (?ds @ space_letter_digit ?r)"
      using ds ih last by (auto simp: successively_append_iff isDigit_not_isLetter)
    moreover have "hd (?ds @ space_letter_digit ?r) = hd ?ds"
      using True by simp
    ultimately have "successively (\<lambda>a b. \<not> (isLetter a \<and> isDigit b))
                       (c # CHR '' '' # ?ds @ space_letter_digit ?r)"
      using True
      by (auto simp: successively_Cons space_not_isLetter space_not_isDigit)
    with True show ?thesis by simp
  next
    case False
    have h: "hd (space_letter_digit cs) = hd cs" "space_letter_digit cs = [] \<longleftrightarrow> cs = []"
      using spaced_hd [OF spaced_space_letter_digit] spaced_Nil_iff [OF spaced_space_letter_digit]
      by simp_all
    have "\<not> (isLetter c \<and> isDigit (hd cs))" if "cs \<noteq> []"
      using False that by (cases cs) auto
    with False 2(2) h show ?thesis
      by (auto simp: successively_Cons)
  qed
qed

lemma space_letter_digit_fixpoint:
  "successively (\<lambda>a b. \<not> (isLetter a \<and> isDigit b)) s \<Longrightarrow> space_letter_digit s = s"
proof (induction s rule: space_letter_digit.induct)
  case 1
  show ?case by simp
next
  case (2 c cs)
  have n: "\<not> (isLetter c \<and> takeWhile isDigit cs \<noteq> [])"
    using 2(3) by (cases cs) (auto split: if_splits)
  have "successively (\<lambda>a b. \<not> (isLetter a \<and> isDigit b)) cs"
    using 2(3) by (auto simp: successively_Cons)
  with n 2(2) have "space_letter_digit cs = cs"
    by blast
  moreover have "space_letter_digit (c # cs) = c # space_letter_digit cs"
    using n by (simp only: space_letter_digit.simps if_False)
  ultimately show ?case
    by simp
qed

lemma collapse_ws2_fixpoint: "single_spaced s \<Longrightarrow> collapse_ws2 s = s"
proof (induction s rule: collapse_ws2.induct)
  case 1
  show ?case by simp
next
  case (2 c cs)
  have n: "\<not> (isSpace c \<and> takeWhile isSpace cs \<noteq> [])"
    using 2(3) by (cases cs) (auto simp: single_spaced_Cons split: if_splits)
  have "single_spaced cs"
    using 2(3) by (simp add: single_spaced_Cons)
  with n 2(2) have "collapse_ws2 cs = cs"
    by blast
  moreover have "collapse_ws2 (c # cs) = c # collapse_ws2 cs"
    using n by (simp only: collapse_ws2.simps if_False)
  ultimately show ?case
    by simp
qed

subsection \<open>space_punct\<close>

lemma space_punct_end:
  assumes "dropWhile isSpace (c # cs) = []"
  shows "space_punct (c # cs) = c # space_punct cs"
  unfolding space_punct.simps assms by simp

lemma space_punct_match:
  assumes "dropWhile isSpace (c # cs) = p # r" and "isPunct p"
  shows "space_punct (c # cs) = p # CHR '' '' # space_punct (dropWhile isSpace r)"
  unfolding space_punct.simps assms(1) using assms(2) by simp

lemma space_punct_skip:
  assumes "dropWhile isSpace (c # cs) = p # r" and "\<not> isPunct p"
  shows "space_punct (c # cs) = c # space_punct cs"
  unfolding space_punct.simps assms(1) using assms(2) by simp

lemma space_punct_at_punct:
  assumes "isPunct c"
  shows "space_punct (c # cs) = c # CHR '' '' # space_punct (dropWhile isSpace cs)"
proof -
  have "dropWhile isSpace (c # cs) = c # cs"
    using assms by (simp add: isPunct_not_isSpace)
  then show ?thesis
    using assms by (rule space_punct_match)
qed

lemma space_punct_at_other:
  assumes "\<not> isSpace c" and "\<not> isPunct c"
  shows "space_punct (c # cs) = c # space_punct cs"
proof -
  have "dropWhile isSpace (c # cs) = c # cs"
    using assms by simp
  then show ?thesis
    using assms(2) by (rule space_punct_skip)
qed

lemma space_punct_at_space:
  assumes "isSpace c" and "dropWhile isSpace cs = [] \<or> \<not> isPunct (hd (dropWhile isSpace cs))"
  shows "space_punct (c # cs) = c # space_punct cs"
proof (cases "dropWhile isSpace cs")
  case Nil
  then have "dropWhile isSpace (c # cs) = []"
    using assms(1) by simp
  then show ?thesis by (rule space_punct_end)
next
  case (Cons p r)
  then have "dropWhile isSpace (c # cs) = p # r"
    using assms(1) by simp
  moreover have "\<not> isPunct p"
    using assms(2) Cons by simp
  ultimately show ?thesis by (rule space_punct_skip)
qed

lemma space_punct_Nil_iff: "space_punct s = [] \<longleftrightarrow> s = []"
proof (cases s)
  case Nil
  then show ?thesis by simp
next
  case (Cons c cs)
  show ?thesis
  proof (cases "dropWhile isSpace (c # cs)")
    case Nil
    then show ?thesis
      unfolding Cons by (simp only: space_punct_end [OF Nil]) simp
  next
    case d: (Cons p r)
    show ?thesis
    proof (cases "isPunct p")
      case True
      show ?thesis
        unfolding Cons by (simp only: space_punct_match [OF d True]) simp
    next
      case False
      show ?thesis
        unfolding Cons by (simp only: space_punct_skip [OF d False]) simp
    qed
  qed
qed

lemma hd_space_punct_nonspace: "\<not> isSpace c \<Longrightarrow> hd (space_punct (c # cs)) = c"
  by (cases "isPunct c") (simp_all add: space_punct_at_punct space_punct_at_other)

lemma hd_space_punct_cases:
  assumes "s \<noteq> []"
  shows "isSpace (hd (space_punct s)) \<or> isPunct (hd (space_punct s)) \<or> hd (space_punct s) = hd s"
proof -
  from assms obtain c cs where s: "s = c # cs" by (cases s) auto
  show ?thesis
  proof (cases "dropWhile isSpace (c # cs)")
    case Nil
    then show ?thesis
      unfolding s by (simp only: space_punct_end [OF Nil]) simp
  next
    case d: (Cons p r)
    show ?thesis
    proof (cases "isPunct p")
      case True
      show ?thesis
        unfolding s using True by (simp only: space_punct_match [OF d True]) simp
    next
      case False
      show ?thesis
        unfolding s by (simp only: space_punct_skip [OF d False]) simp
    qed
  qed
qed

lemma punct_normal_space_punct: "punct_normal f (space_punct s)"
proof (induction s arbitrary: f rule: space_punct.induct)
  case 1
  show ?case by simp
next
  case (2 c cs)
  show ?case
  proof (cases "dropWhile isSpace (c # cs)")
    case Nil
    then have c: "isSpace c" and cs: "dropWhile isSpace cs = []"
      by (auto split: if_splits)
    have "space_punct cs = [] \<or> \<not> isPunct (hd (space_punct cs))"
    proof (cases cs)
      case Nil
      then show ?thesis by simp
    next
      case (Cons d r)
      with cs have d: "isSpace d" "dropWhile isSpace r = []"
        by (auto split: if_splits)
      then have "space_punct (d # r) = d # space_punct r"
        by (intro space_punct_at_space) simp_all
      with Cons d show ?thesis
        using isPunct_not_isSpace by auto
    qed
    moreover have "punct_normal False (space_punct cs)"
      using 2(1) [OF Nil] .
    ultimately show ?thesis
      using c by (simp only: space_punct_end [OF Nil]) (auto simp: isPunct_not_isSpace)
  next
    case d: (Cons p r)
    show ?thesis
    proof (cases "isPunct p")
      case True
      have "punct_normal False (space_punct (dropWhile isSpace r))"
        using 2(2) [OF d True] .
      then show ?thesis
        using True
        by (simp only: space_punct_match [OF d True])
           (simp add: space_isSpace space_not_isPunct)
    next
      case False
      have ih: "punct_normal False (space_punct cs)"
        using 2(3) [OF d False] .
      show ?thesis
      proof (cases "isSpace c")
        case sp: True
        then have dc: "dropWhile isSpace cs = p # r"
          using d by simp
        then obtain e es where cs: "cs = e # es"
          by (cases cs) auto
        have "\<not> isPunct (hd (space_punct cs))"
        proof (cases "isSpace e")
          case True
          then have "space_punct (e # es) = e # space_punct es"
            using dc False unfolding cs by (intro space_punct_at_space) (auto split: if_splits)
          with True show ?thesis
            unfolding cs using isPunct_not_isSpace by auto
        next
          case ne: False
          then have "e = p" using dc unfolding cs by simp
          with ne False show ?thesis
            unfolding cs by (simp add: hd_space_punct_nonspace)
        qed
        with ih sp show ?thesis
          by (simp only: space_punct_skip [OF d False]) (auto simp: isPunct_not_isSpace)
      next
        case nsp: False
        then have "c = p" using d by simp
        with ih nsp False show ?thesis
          by (simp only: space_punct_skip [OF d False]) simp
      qed
    qed
  qed
qed

declare space_punct.simps(2) [simp del]

lemma single_spaced_suffix: "single_spaced (a @ b) \<Longrightarrow> single_spaced b"
  using single_spaced_append by blast

lemma successively_dropWhile: "successively Q s \<Longrightarrow> successively Q (dropWhile P s)"
  using successively_append_iff [of Q "takeWhile P s" "dropWhile P s"] by simp

lemma single_spaced_space_punct: "single_spaced s \<Longrightarrow> single_spaced (space_punct s)"
proof (induction s rule: space_punct.induct)
  case 1
  show ?case by simp
next
  case (2 c cs)
  have tl: "single_spaced cs"
    using 2(4) by (simp add: single_spaced_Cons)
  show ?case
  proof (cases "dropWhile isSpace (c # cs)")
    case Nil
    then have c: "isSpace c" and cs: "dropWhile isSpace cs = []"
      by (auto split: if_splits)
    have "cs = []"
    proof (rule ccontr)
      assume "cs \<noteq> []"
      then have "\<not> isSpace (hd cs)"
        using 2(4) c by (simp add: single_spaced_Cons)
      with \<open>cs \<noteq> []\<close> cs show False
        by (cases cs) auto
    qed
    with 2(4) show ?thesis
      unfolding space_punct_end [OF Nil] by simp
  next
    case d: (Cons p r)
    have pr: "single_spaced (p # r)"
      using single_spaced_dropWhile [OF 2(4), of isSpace] d by simp
    show ?thesis
    proof (cases "isPunct p")
      case True
      let ?y = "dropWhile isSpace r"
      have "single_spaced ?y"
        using pr by (intro single_spaced_dropWhile) (simp add: single_spaced_Cons)
      then have ih: "single_spaced (space_punct ?y)"
        using 2(2) [OF d True] by simp
      have "space_punct ?y = [] \<or> \<not> isSpace (hd (space_punct ?y))"
      proof (cases ?y)
        case Nil
        then have "space_punct ?y = []" by (simp only: space_punct.simps)
        then show ?thesis by (rule disjI1)
      next
        case (Cons e es)
        then have "\<not> isSpace e"
          by (metis hd_dropWhile list.sel(1) list.distinct(1))
        then have "hd (space_punct (e # es)) = e"
          by (rule hd_space_punct_nonspace)
        with Cons \<open>\<not> isSpace e\<close> show ?thesis by simp
      qed
      with ih True show ?thesis
        unfolding space_punct_match [OF d True]
        by (auto simp: single_spaced_Cons isPunct_not_isSpace)
    next
      case False
      have ih: "single_spaced (space_punct cs)"
        using 2(3) [OF d False] tl by simp
      show ?thesis
      proof (cases "isSpace c")
        case sp: True
        then have "dropWhile isSpace cs = p # r" using d by simp
        then have ne: "cs \<noteq> []" by auto
        with 2(4) sp have c: "c = CHR '' ''" and h: "\<not> isSpace (hd cs)"
          by (simp_all add: single_spaced_Cons)
        from ne h have "hd (space_punct cs) = hd cs"
          by (cases cs) (simp_all add: hd_space_punct_nonspace)
        with ih h c show ?thesis
          unfolding space_punct_skip [OF d False]
          by (simp add: single_spaced_Cons space_punct_Nil_iff)
      next
        case nsp: False
        with ih show ?thesis
          unfolding space_punct_skip [OF d False] by (simp add: single_spaced_Cons)
      qed
    qed
  qed
qed

lemma successively_space_punct:
  assumes "successively Q s"
    and "\<And>a b. isSpace a \<or> isSpace b \<or> isPunct a \<or> isPunct b \<Longrightarrow> Q a b"
  shows "successively Q (space_punct s)"
  using assms(1)
proof (induction s rule: space_punct.induct)
  case 1
  show ?case by simp
next
  case (2 c cs)
  have tl: "successively Q cs"
    using 2(4) by (auto simp: successively_Cons)
  show ?case
  proof (cases "dropWhile isSpace (c # cs)")
    case Nil
    then have c: "isSpace c" by (auto split: if_splits)
    have "successively Q (space_punct cs)"
      using 2(1) [OF Nil] tl by simp
    with c assms(2) show ?thesis
      unfolding space_punct_end [OF Nil] by (auto simp: successively_Cons)
  next
    case d: (Cons p r)
    have pr: "successively Q (p # r)"
      using successively_dropWhile [OF 2(4), of isSpace] d by simp
    show ?thesis
    proof (cases "isPunct p")
      case True
      have "successively Q (dropWhile isSpace r)"
        using pr by (intro successively_dropWhile) (auto simp: successively_Cons)
      then have "successively Q (space_punct (dropWhile isSpace r))"
        using 2(2) [OF d True] by simp
      with True assms(2) [of p "CHR '' ''"] assms(2) [of "CHR '' ''"] space_isSpace show ?thesis
        unfolding space_punct_match [OF d True] by (auto simp: successively_Cons)
    next
      case False
      have ih: "successively Q (space_punct cs)"
        using 2(3) [OF d False] tl by simp
      have "Q c (hd (space_punct cs))" if "cs \<noteq> []"
        using hd_space_punct_cases [OF that] assms(2) 2(4) that
        by (auto simp: successively_Cons)
      with ih show ?thesis
        unfolding space_punct_skip [OF d False]
        by (auto simp: successively_Cons space_punct_Nil_iff)
    qed
  qed
qed

lemma space_punct_fixpoint:
  assumes "punct_normal False s" and "single_spaced s" and "s \<noteq> [] \<longrightarrow> \<not> isSpace (last s)"
  shows "space_punct s = s @ (if s \<noteq> [] \<and> isPunct (last s) then '' '' else [])"
  using assms
proof (induction s rule: space_punct.induct)
  case 1
  show ?case by simp
next
  case (2 c cs)
  have tl: "single_spaced cs"
    using 2(5) by (simp add: single_spaced_Cons)
  show ?case
  proof (cases "isPunct c")
    case True
    have d: "dropWhile isSpace (c # cs) = c # cs"
      using True by (simp add: isPunct_not_isSpace)
    show ?thesis
    proof (cases cs)
      case Nil
      with True show ?thesis
        by (simp add: space_punct_at_punct isPunct_not_isSpace)
    next
      case (Cons e r)
      with 2(4) True have e: "e = CHR '' ''"
        by simp
      with 2(4) True Cons have pr: "punct_normal False r"
        by (simp add: space_isSpace space_not_isPunct)
      from 2(6) Cons e have r: "r \<noteq> []"
        using space_isSpace by auto
      from tl Cons e r have hr: "\<not> isSpace (hd r)" and sr: "single_spaced r"
        by (simp_all add: single_spaced_Cons space_isSpace)
      then have dr: "dropWhile isSpace cs = r"
        using Cons e r by (cases r) (simp_all add: space_isSpace)
      then have "dropWhile isSpace cs = r" .
      have lr: "r \<noteq> [] \<longrightarrow> \<not> isSpace (last r)"
        using 2(6) Cons r by simp
      have "space_punct r = r @ (if r \<noteq> [] \<and> isPunct (last r) then '' '' else [])"
        using 2(2) [OF d True] pr sr lr dr by simp
      then show ?thesis
        using True Cons e r dr by (simp add: space_punct_at_punct)
    qed
  next
    case False
    show ?thesis
    proof (cases "isSpace c")
      case sp: True
      from 2(6) sp have ne: "cs \<noteq> []" by auto
      with 2(5) sp have h: "\<not> isSpace (hd cs)"
        by (simp add: single_spaced_Cons)
      from 2(4) sp False ne have np: "\<not> isPunct (hd cs)" and pc: "punct_normal False cs"
        by simp_all
      from ne h obtain e r where cs: "cs = e # r" and e: "\<not> isSpace e"
        by (cases cs) auto
      have d: "dropWhile isSpace (c # cs) = e # r"
        using sp cs e by simp
      have ne': "\<not> isPunct e" using np cs by simp
      have "space_punct cs = cs @ (if cs \<noteq> [] \<and> isPunct (last cs) then '' '' else [])"
        using 2(3) [OF d ne'] pc tl 2(6) ne by simp
      then show ?thesis
        unfolding space_punct_skip [OF d ne'] using ne by simp
    next
      case nsp: False
      have d: "dropWhile isSpace (c # cs) = c # cs"
        using nsp by simp
      from 2(4) nsp False have pc: "punct_normal False cs"
        by simp
      have "space_punct cs = cs @ (if cs \<noteq> [] \<and> isPunct (last cs) then '' '' else [])"
        using 2(3) [OF d False] pc tl 2(6) by (cases "cs = []") simp_all
      then show ?thesis
        unfolding space_punct_skip [OF d False] using False by simp
    qed
  qed
qed

subsection \<open>trim\<close>

lemma successively_trim: "successively Q s \<Longrightarrow> successively Q (trim s)"
proof -
  assume "successively Q s"
  then have "successively Q (dropWhile isSpace s)"
    by (rule successively_dropWhile)
  moreover obtain t where "dropWhile isSpace s = trim s @ t"
    using trim_decomp by blast
  ultimately show ?thesis
    by (simp add: successively_append_iff)
qed

lemma punct_normal_suffix:
  "punct_normal f (a @ b) \<Longrightarrow> b = [] \<or> \<not> isSpace (hd b) \<Longrightarrow> punct_normal g b"
proof (induction a arbitrary: f)
  case Nil
  then show ?case
    by (cases b) (auto simp: isPunct_not_isSpace split: if_splits)
next
  case (Cons c a)
  from Cons(2) obtain f' where "punct_normal f' (a @ b)"
    by (auto split: if_splits)
  then show ?case
    using Cons(1,3) by blast
qed

lemma punct_normal_prefix: "punct_normal f (a @ b) \<Longrightarrow> punct_normal f a"
proof (induction a arbitrary: f)
  case Nil
  show ?case by simp
next
  case (Cons c a)
  then show ?case
    by (cases a) (auto split: if_splits)
qed

lemma punct_normal_trim: "punct_normal f s \<Longrightarrow> punct_normal g (trim s)"
proof -
  assume a: "punct_normal f s"
  let ?u = "dropWhile isSpace s"
  have "punct_normal f (takeWhile isSpace s @ ?u)"
    using a by simp
  moreover have "?u = [] \<or> \<not> isSpace (hd ?u)"
    by (metis hd_dropWhile)
  ultimately have "punct_normal g ?u"
    by (rule punct_normal_suffix)
  moreover obtain t where "?u = trim s @ t"
    using trim_decomp by blast
  ultimately show ?thesis
    using punct_normal_prefix by metis
qed

lemma dropWhile_hd_id: "xs \<noteq> [] \<Longrightarrow> \<not> P (hd xs) \<Longrightarrow> dropWhile P xs = xs"
  by (cases xs) simp_all

lemma trim_ends:
  assumes "trim s \<noteq> []"
  shows "\<not> isSpace (hd (trim s))" and "\<not> isSpace (last (trim s))"
proof -
  have "dropWhile isSpace (trim s) = trim s"
    by (rule dropWhile_trim)
  with assms show "\<not> isSpace (hd (trim s))"
    by (metis hd_dropWhile)
  let ?r = "dropWhile isSpace (rev (dropWhile isSpace s))"
  have r: "rev (trim s) = ?r"
    by (simp add: trim_def)
  with assms have "?r \<noteq> []" by (metis rev_is_Nil_conv)
  then have "\<not> isSpace (hd ?r)"
    by (rule hd_dropWhile)
  then show "\<not> isSpace (last (trim s))"
    using r assms by (metis hd_rev)
qed

lemma trim_fixpoint:
  assumes "s = [] \<or> (\<not> isSpace (hd s) \<and> \<not> isSpace (last s))"
  shows "trim s = s"
proof (cases s)
  case Nil
  then show ?thesis by (simp add: trim_def)
next
  case (Cons c cs)
  with assms have h: "\<not> isSpace c" and l: "\<not> isSpace (last s)"
    by simp_all
  from h have 1: "dropWhile isSpace s = s"
    using Cons by simp
  have "rev s \<noteq> []" using Cons by simp
  moreover have "hd (rev s) = last s"
    using Cons by (simp add: hd_rev)
  ultimately have 2: "dropWhile isSpace (rev s) = rev s"
    using l by (simp add: dropWhile_hd_id)
  show ?thesis
    by (simp add: trim_def 1 2)
qed

lemma trim_append_space:
  assumes "s \<noteq> []" and "\<not> isSpace (hd s)" and "\<not> isSpace (last s)"
  shows "trim (s @ '' '') = s"
proof -
  have 1: "dropWhile isSpace (s @ '' '') = s @ '' ''"
    using assms(1,2) by (cases s) simp_all
  have "rev s \<noteq> []" using assms(1) by simp
  moreover have "hd (rev s) = last s"
    using assms(1) by (simp add: hd_rev)
  ultimately have 2: "dropWhile isSpace (rev s) = rev s"
    using assms(3) by (simp add: dropWhile_hd_id)
  show ?thesis
    by (simp add: trim_def 1 2 space_isSpace)
qed

lemma single_spaced_append_space:
  assumes "single_spaced s" and "s \<noteq> []" and "\<not> isSpace (last s)"
  shows "single_spaced (s @ '' '')"
  using assms
proof (induction s rule: single_spaced.induct)
  case 1
  then show ?case by simp
next
  case (2 c)
  then show ?case by simp
next
  case (3 a b r)
  then show ?case by simp
qed

subsection \<open>space_digit_letter applied twice\<close>

lemma space_digit_letter_no_match:
  assumes "\<not> (isDigit c \<and> pw = False)"
  shows "space_digit_letter pw (c # cs) = c # space_digit_letter (isWord c) cs"
proof (cases "dropWhile isDigit (c # cs)")
  case Nil
  then show ?thesis by (rule space_digit_letter_end)
next
  case (Cons l r)
  then show ?thesis
    using assms by (intro space_digit_letter_skip) auto
qed

lemma space_digit_letter_digits_space:
  assumes "\<forall>d \<in> set ds. isDigit d"
  shows "space_digit_letter pw (ds @ CHR '' '' # y) = ds @ CHR '' '' # space_digit_letter False y"
  using assms
proof (induction ds arbitrary: pw)
  case Nil
  then show ?case
    by (simp add: space_digit_letter_no_match space_not_isDigit space_not_isWord
          del: space_digit_letter.simps)
next
  case (Cons d ds)
  then have d: "isDigit d" and ds: "\<forall>d \<in> set ds. isDigit d"
    by simp_all
  have "dropWhile isDigit (d # ds @ CHR '' '' # y) = CHR '' '' # y"
    using d ds by (simp add: dropWhile_append3 space_not_isDigit)
  then have "space_digit_letter pw (d # ds @ CHR '' '' # y) =
               d # space_digit_letter (isWord d) (ds @ CHR '' '' # y)"
    by (rule space_digit_letter_skip) (simp add: space_not_isLetter)
  with Cons(1) [OF ds] show ?case
    by simp
qed

lemma digit_run_space_digit_letter_True:
  "takeWhile isDigit (space_digit_letter True s) = takeWhile isDigit s \<and>
   (dropWhile isDigit (space_digit_letter True s) = [] \<longleftrightarrow> dropWhile isDigit s = []) \<and>
   hd (dropWhile isDigit (space_digit_letter True s)) = hd (dropWhile isDigit s)"
proof (induction s)
  case Nil
  show ?case by simp
next
  case (Cons c cs)
  have e: "space_digit_letter True (c # cs) = c # space_digit_letter (isWord c) cs"
    by (rule space_digit_letter_no_match) simp
  show ?case
  proof (cases "isDigit c")
    case True
    then have "isWord c" by (rule isDigit_isWord)
    with e True Cons show ?thesis
      by (simp del: space_digit_letter.simps)
  next
    case False
    with e show ?thesis
      by (simp del: space_digit_letter.simps)
  qed
qed

lemma space_digit_letter_idem:
  "space_digit_letter pw (space_digit_letter pw s) = space_digit_letter pw s"
proof (induction pw s rule: space_digit_letter.induct)
  case (1 pw)
  show ?case by simp
next
  case (2 pw c cs)
  show ?case
  proof (cases "isDigit c \<and> pw = False")
    case False
    have e: "space_digit_letter pw (c # cs) = c # space_digit_letter (isWord c) cs"
      using False by (rule space_digit_letter_no_match)
    have ih: "space_digit_letter (isWord c) (space_digit_letter (isWord c) cs) =
              space_digit_letter (isWord c) cs"
    proof (cases "dropWhile isDigit (c # cs)")
      case Nil
      then show ?thesis by (rule 2(1))
    next
      case (Cons l r)
      then show ?thesis
        using False by (intro 2(3)) auto
    qed
    show ?thesis
      unfolding e using False ih by (simp add: space_digit_letter_no_match del: space_digit_letter.simps)
  next
    case True
    then have c: "isDigit c" and pw: "pw = False" by simp_all
    have wc: "isWord c" using c by (rule isDigit_isWord)
    show ?thesis
    proof (cases "dropWhile isDigit (c # cs)")
      case Nil
      have e: "space_digit_letter pw (c # cs) = c # space_digit_letter True cs"
        using space_digit_letter_end [OF Nil] wc by simp
      have ih: "space_digit_letter True (space_digit_letter True cs) = space_digit_letter True cs"
        using 2(1) [OF Nil] wc by simp
      from Nil c have "dropWhile isDigit cs = []" by simp
      then have "dropWhile isDigit (space_digit_letter True cs) = []"
        using digit_run_space_digit_letter_True [of cs] by simp
      then have "dropWhile isDigit (c # space_digit_letter True cs) = []"
        using c by simp
      then have "space_digit_letter pw (c # space_digit_letter True cs) =
                   c # space_digit_letter (isWord c) (space_digit_letter True cs)"
        by (rule space_digit_letter_end)
      with ih wc show ?thesis
        unfolding e by simp
    next
      case (Cons l r)
      show ?thesis
      proof (cases "isLetter l")
        case l: True
        let ?ds = "takeWhile isDigit (c # cs)"
        have e: "space_digit_letter pw (c # cs) =
                   ?ds @ CHR '' '' # l # space_digit_letter True r"
          using Cons c l pw by (rule space_digit_letter_match)
        have ih: "space_digit_letter True (space_digit_letter True r) = space_digit_letter True r"
          using 2(2) [OF Cons] c l pw by simp
        have ds: "\<forall>d \<in> set ?ds. isDigit d"
          by (auto dest: set_takeWhileD)
        have nl: "\<not> (isDigit l \<and> False = False)"
          using l isDigit_not_isLetter by blast
        have "space_digit_letter pw (?ds @ CHR '' '' # l # space_digit_letter True r) =
                ?ds @ CHR '' '' # space_digit_letter False (l # space_digit_letter True r)"
          using ds by (rule space_digit_letter_digits_space)
        also have "space_digit_letter False (l # space_digit_letter True r) =
                     l # space_digit_letter (isWord l) (space_digit_letter True r)"
          using nl by (rule space_digit_letter_no_match)
        also have "isWord l" using l by (rule isLetter_isWord)
        then have "space_digit_letter (isWord l) (space_digit_letter True r) =
                     space_digit_letter True r"
          using ih by simp
        finally show ?thesis
          unfolding e by simp
      next
        case nl: False
        have e: "space_digit_letter pw (c # cs) = c # space_digit_letter True cs"
          using space_digit_letter_skip [OF Cons, of pw] nl wc by simp
        have ih: "space_digit_letter True (space_digit_letter True cs) = space_digit_letter True cs"
          using 2(3) [OF Cons] nl wc by simp
        from Cons c have d: "dropWhile isDigit cs = l # r" by simp
        have "space_digit_letter pw (c # space_digit_letter True cs) =
                c # space_digit_letter (isWord c) (space_digit_letter True cs)"
        proof (cases "dropWhile isDigit (c # space_digit_letter True cs)")
          case Nil
          then show ?thesis by (rule space_digit_letter_end)
        next
          case c2: (Cons l' r')
          then have "dropWhile isDigit (space_digit_letter True cs) = l' # r'"
            using c by simp
          then have "l' = hd (dropWhile isDigit cs)"
            using digit_run_space_digit_letter_True [of cs] by simp
          then have "l' = l" using d by simp
          with nl show ?thesis
            by (intro space_digit_letter_skip [OF c2]) simp
        qed
        with ih wc show ?thesis
          unfolding e by simp
      qed
    qed
  qed
qed

subsection \<open>preprocessTextForSearch applied three times\<close>

lemma camel_free_iff: "camel_free s \<longleftrightarrow> successively (\<lambda>a b. \<not> (isLower a \<and> isUpper b)) s"
  by (simp add: camel_free_def)

lemma letter_digit_free_iff:
  "letter_digit_free s \<longleftrightarrow> successively (\<lambda>a b. \<not> (isLetter a \<and> isDigit b)) s"
  by (simp add: letter_digit_free_def)

lemma camel_free_spaced: "spaced xs ys \<Longrightarrow> camel_free xs \<Longrightarrow> camel_free ys"
  unfolding camel_free_iff
  by (erule spaced_successively) (auto dest: isLower_isWord isUpper_isWord isWord_not_isSpace)

lemma letter_digit_free_spaced: "spaced xs ys \<Longrightarrow> letter_digit_free xs \<Longrightarrow> letter_digit_free ys"
  unfolding letter_digit_free_iff
  by (erule spaced_successively) (auto dest: isLetter_isWord isDigit_isWord isWord_not_isSpace)

lemma camel_free_space_punct: "camel_free s \<Longrightarrow> camel_free (space_punct s)"
  unfolding camel_free_iff
  by (erule successively_space_punct)
     (auto dest: isLower_isWord isUpper_isWord isWord_not_isSpace isWord_not_isPunct)

lemma letter_digit_free_space_punct: "letter_digit_free s \<Longrightarrow> letter_digit_free (space_punct s)"
  unfolding letter_digit_free_iff
  by (erule successively_space_punct)
     (auto dest: isLetter_isWord isDigit_isWord isWord_not_isSpace isWord_not_isPunct)

text \<open>The steps of \<open>preprocessTextForSearch\<close> behind the first one.\<close>

lemma preprocess_single_spaced:
  assumes "single_spaced y"
  shows "preprocessTextForSearch y =
           trim (space_punct (space_letter_digit (space_digit_letter False (space_camel y))))"
proof -
  let ?c = "space_letter_digit (space_digit_letter False (space_camel y))"
  have "single_spaced (space_camel y)"
    using spaced_space_camel assms by (rule spaced_single_spaced)
  then have "single_spaced (space_digit_letter False (space_camel y))"
    using spaced_space_digit_letter spaced_single_spaced by blast
  then have "single_spaced ?c"
    using spaced_space_letter_digit spaced_single_spaced by blast
  then have "single_spaced (space_punct ?c)"
    by (rule single_spaced_space_punct)
  then have "collapse_ws2 (space_punct ?c) = space_punct ?c"
    by (rule collapse_ws2_fixpoint)
  then show ?thesis
    by (simp add: preprocessTextForSearch_def collapse_ws_single_spaced [OF assms])
qed

lemma collapse_ws_idem: "collapse_ws (collapse_ws s) = collapse_ws s"
  by (rule collapse_ws_single_spaced [OF single_spaced_collapse_ws])

lemma preprocess_collapse_ws: "preprocessTextForSearch (collapse_ws s) = preprocessTextForSearch s"
  by (simp add: preprocessTextForSearch_def collapse_ws_idem)

lemma settled_preprocess: "settled (preprocessTextForSearch s)"
proof -
  let ?y = "collapse_ws s"
  let ?a = "space_camel ?y"
  let ?b = "space_digit_letter False ?a"
  let ?c = "space_letter_digit ?b"
  let ?d = "space_punct ?c"
  have y: "single_spaced ?y" by (rule single_spaced_collapse_ws)
  have p: "preprocessTextForSearch s = trim ?d"
    using preprocess_single_spaced [OF y] by (simp add: preprocess_collapse_ws)
  have "single_spaced ?a"
    using spaced_space_camel y by (rule spaced_single_spaced)
  then have "single_spaced ?b"
    using spaced_space_digit_letter spaced_single_spaced by blast
  then have "single_spaced ?c"
    using spaced_space_letter_digit spaced_single_spaced by blast
  then have "single_spaced ?d"
    by (rule single_spaced_space_punct)
  then have 1: "single_spaced (trim ?d)"
    by (rule single_spaced_trim)
  have 2: "trim (trim ?d) = trim ?d"
    by (rule trim_trim)
  have 3: "punct_normal False (trim ?d)"
    using punct_normal_space_punct by (rule punct_normal_trim)
  have "camel_free ?a"
    unfolding camel_free_iff by (rule camel_free_space_camel)
  then have "camel_free ?b"
    using spaced_space_digit_letter camel_free_spaced by blast
  then have "camel_free ?c"
    using spaced_space_letter_digit camel_free_spaced by blast
  then have "camel_free ?d"
    by (rule camel_free_space_punct)
  then have 4: "camel_free (trim ?d)"
    unfolding camel_free_iff by (rule successively_trim)
  have "letter_digit_free ?c"
    unfolding letter_digit_free_iff by (rule letter_digit_free_space_letter_digit)
  then have "letter_digit_free ?d"
    by (rule letter_digit_free_space_punct)
  then have 5: "letter_digit_free (trim ?d)"
    unfolding letter_digit_free_iff by (rule successively_trim)
  from 1 2 3 4 5 show ?thesis
    unfolding p settled_def by blast
qed

lemma settled_ends:
  assumes "settled v" and "v \<noteq> []"
  shows "\<not> isSpace (hd v)" and "\<not> isSpace (last v)"
proof -
  from assms have "trim v = v" and "trim v \<noteq> []"
    by (simp_all add: settled_def)
  then show "\<not> isSpace (hd v)" and "\<not> isSpace (last v)"
    using trim_ends [of v] by simp_all
qed

lemma settled_space_digit_letter:
  assumes "settled v"
  shows "settled (space_digit_letter False v)"
proof -
  let ?y = "space_digit_letter False v"
  have sp: "spaced v ?y" by (rule spaced_space_digit_letter)
  have 1: "single_spaced ?y"
    using sp assms by (auto simp: settled_def intro: spaced_single_spaced)
  have 3: "punct_normal False ?y"
    using sp assms by (auto simp: settled_def intro: spaced_punct_normal)
  have 4: "camel_free ?y"
    using sp assms by (auto simp: settled_def intro: camel_free_spaced)
  have 5: "letter_digit_free ?y"
    using sp assms by (auto simp: settled_def intro: letter_digit_free_spaced)
  have 2: "trim ?y = ?y"
  proof (cases "v = []")
    case True
    then show ?thesis by (simp add: trim_def)
  next
    case False
    then have "?y \<noteq> []"
      using spaced_Nil_iff [OF sp] by simp
    moreover have "\<not> isSpace (hd ?y)" "\<not> isSpace (last ?y)"
      using settled_ends [OF assms False] spaced_hd [OF sp] spaced_last [OF sp] by simp_all
    ultimately show ?thesis
      by (intro trim_fixpoint) simp
  qed
  from 1 2 3 4 5 show ?thesis
    unfolding settled_def by blast
qed

lemma preprocess_settled:
  assumes "settled v"
  shows "preprocessTextForSearch v = space_digit_letter False v"
proof -
  let ?y = "space_digit_letter False v"
  have v: "single_spaced v" "camel_free v" "letter_digit_free v"
    using assms by (simp_all add: settled_def)
  have y: "settled ?y"
    using assms by (rule settled_space_digit_letter)
  have a: "space_camel v = v"
    using v(2) unfolding camel_free_iff by (rule space_camel_fixpoint)
  have c: "space_letter_digit ?y = ?y"
    using y unfolding settled_def letter_digit_free_iff
    by (intro space_letter_digit_fixpoint) simp
  have p: "preprocessTextForSearch v = trim (space_punct ?y)"
    using preprocess_single_spaced [OF v(1)] by (simp add: a c)
  show ?thesis
  proof (cases "?y = []")
    case True
    then show ?thesis
      unfolding p by (simp add: trim_def)
  next
    case False
    have e: "\<not> isSpace (hd ?y)" "\<not> isSpace (last ?y)"
      using settled_ends [OF y False] .
    have f: "space_punct ?y = ?y @ (if ?y \<noteq> [] \<and> isPunct (last ?y) then '' '' else [])"
      using y e(2) unfolding settled_def by (intro space_punct_fixpoint) simp_all
    show ?thesis
    proof (cases "isPunct (last ?y)")
      case True
      with f False have "space_punct ?y = ?y @ '' ''" by simp
      then show ?thesis
        unfolding p using trim_append_space [OF False e] by simp
    next
      case np: False
      with f have "space_punct ?y = ?y" by simp
      then show ?thesis
        unfolding p using y by (simp add: settled_def)
    qed
  qed
qed

lemma preprocess_thrice:
  "preprocessTextForSearch (preprocessTextForSearch (preprocessTextForSearch s)) =
   preprocessTextForSearch (preprocessTextForSearch s)"
proof -
  let ?v = "preprocessTextForSearch s"
  have v: "settled ?v" by (rule settled_preprocess)
  have 1: "preprocessTextForSearch ?v = space_digit_letter False ?v"
    using v by (rule preprocess_settled)
  have "settled (space_digit_letter False ?v)"
    using v by (rule settled_space_digit_letter)
  then have "preprocessTextForSearch (space_digit_letter False ?v) =
               space_digit_letter False (space_digit_letter False ?v)"
    by (rule preprocess_settled)
  then show ?thesis
    unfolding 1 by (simp only: space_digit_letter_idem)
qed

lemma list_all_allowed_preprocess:
  assumes "list_all allowed s"
  shows "list_all allowed (preprocessTextForSearch s)"
proof -
  let ?a = "collapse_ws s"
  let ?b = "space_camel ?a"
  let ?c = "space_digit_letter False ?b"
  let ?d = "space_letter_digit ?c"
  let ?e = "space_punct ?d"
  let ?f = "collapse_ws2 ?e"
  have a: "list_all allowed ?a"
    using assms by (rule list_all_allowed_collapse_ws)
  have b: "list_all allowed ?b"
    using a set_space_camel [of ?a] by (rule list_all_allowed_subset)
  have c: "list_all allowed ?c"
    using b set_space_digit_letter [of False ?b] by (rule list_all_allowed_subset)
  have d: "list_all allowed ?d"
    using c set_space_letter_digit [of ?c] by (rule list_all_allowed_subset)
  have e: "list_all allowed ?e"
    using d set_space_punct [of ?d] by (rule list_all_allowed_subset)
  have f: "list_all allowed ?f"
    using e set_collapse_ws2 [of ?e] by (rule list_all_allowed_subset)
  show ?thesis
    unfolding preprocessTextForSearch_def
    using f set_trim [of ?f] by (auto simp: list_all_iff)
qed

lemma normalize_twice: "normalize (normalize s) = preprocessTextForSearch (normalize s)"
  by (simp add: normalize_def [of "normalize s"] clean_extracted_normalize)

text \<open>
  Claim C6 as stated fails.  The pipeline sends \<open>a1b\<close> to \<open>a 1b\<close> and that to \<open>a 1 b\<close>: a
  digit behind a letter gets a space in front of it, but only then does the digit stand at a
  word boundary, where it gets a space behind it.  The same holds for
  \<open>preprocessTextForSearch\<close> alone.  The cleaning of the edge function alone sends \<open>a##b\<close> to
  \<open>a  b\<close> and that to \<open>a b\<close>: it collapses white space before it replaces the characters it
  filters out by spaces.
\<close>

theorem normalize_idempotent_counterexample: "normalize ''a1b'' = ''a 1b'' \<and> normalize (normalize ''a1b'') = ''a 1 b'' \<and>
  preprocessTextForSearch ''a1b'' = ''a 1b'' \<and> preprocessTextForSearch ''a 1b'' = ''a 1 b'' \<and>
  clean_extracted ''a##b'' = ''a  b'' \<and> clean_extracted ''a  b'' = ''a b''"
  by code_simp

text \<open>
  Claim C6, as the code has it.  The pipeline reaches a fixed point with its second
  application: a third application changes nothing.  The same holds for each of its two
  parts on its own, the cleaning of the extracted text and \<open>preprocessTextForSearch\<close>.
\<close>

theorem normalize_stabilises:
  "normalize (normalize (normalize s)) = normalize (normalize s) \<and>
   preprocessTextForSearch (preprocessTextForSearch (preprocessTextForSearch t)) =
     preprocessTextForSearch (preprocessTextForSearch t) \<and>
   clean_extracted (clean_extracted (clean_extracted u)) = clean_extracted (clean_extracted u)"
proof -
  let ?x = "clean_extracted s"
  let ?v = "preprocessTextForSearch ?x"
  have v: "normalize s = ?v" by (simp add: normalize_def)
  have av: "list_all allowed ?v"
    by (rule list_all_allowed_preprocess [OF list_all_allowed_clean_extracted])
  have 2: "normalize (normalize s) = preprocessTextForSearch ?v"
    using normalize_twice [of s] by (simp add: v)
  have "clean_extracted (preprocessTextForSearch ?v) = preprocessTextForSearch ?v"
    by (rule clean_extracted_preprocessed [OF av])
  then have "normalize (preprocessTextForSearch ?v) =
               preprocessTextForSearch (preprocessTextForSearch ?v)"
    by (simp add: normalize_def)
  then have "normalize (normalize (normalize s)) = normalize (normalize s)"
    unfolding 2 by (simp only: preprocess_thrice)
  moreover have "clean_extracted (clean_extracted (clean_extracted u)) =
                   clean_extracted (clean_extracted u)"
    by (rule clean_extracted_idem_allowed [OF list_all_allowed_clean_extracted])
  ultimately show ?thesis
    using preprocess_thrice [of t] by blast
qed

end
